theory Spec2Isabelle
  imports Main "HOL-Library.Word"
begin

unbundle bit_operations_syntax

section \<open>The inode layer of \<^verbatim>\<open>src/filesys/inode.c\<close>\<close>

text \<open>
  The operations are functions of the state: one runs to completion before the next
  starts. A pair \<^verbatim>\<open>lock_acquire\<close>/\<^verbatim>\<open>lock_release\<close> that brackets a critical section
  therefore has no effect of its own and is not written out; \<^verbatim>\<open>lock_init\<close> is, since
  whether a lock was initialised is visible afterwards. \<^verbatim>\<open>inode_open\<close> releases
  \<^verbatim>\<open>inode_list_lock\<close> in the middle of its work, so it is written in two parts, the one
  that runs with the lock held and the one that runs after the release, with the state
  between them.

  Behaviour that C leaves undefined, and the kernel's fatal stops, are results of the
  model: every operation returns \<open>fault + 'a\<close>, with \<open>Inl\<close> the fault.
\<close>

subsection \<open>Machine types and C arithmetic\<close>

type_synonym byte = "8 word"

text \<open>Modelled from the spec: \<^verbatim>\<open>disk_sector_t\<close> (devices/disk.h is not among the sources) is
  the sector identifier, an unsigned 32-bit integer; arithmetic on it wraps.\<close>
type_synonym disk_sector_t = "32 word"

text \<open>\<^verbatim>\<open>off_t\<close>, \<^verbatim>\<open>int\<close>: signed 32-bit integers. Values in computation are \<open>int\<close>;
  \<open>is_off_t\<close> is the range of the type, and a signed operation that leaves it is the fault
  \<open>Signed_Overflow\<close>. At rest (in a descriptor) an \<^verbatim>\<open>off_t\<close> is a 32-bit word read by \<open>sint\<close>.\<close>
definition is_off_t :: "int \<Rightarrow> bool" where
  "is_off_t x \<longleftrightarrow> - (2 ^ 31) \<le> x \<and> x < 2 ^ 31"

text \<open>Modelled from the spec: the macro \<^verbatim>\<open>DISK_SECTOR_SIZE\<close> (devices/disk.h is not among
  the sources); the spec's scenarios fix the sector size at 512 bytes, and so does the
  layout of \<^verbatim>\<open>struct inode_disk\<close> (4 + 4 + 4 + 125 * 4).\<close>
definition DISK_SECTOR_SIZE :: int where
  "DISK_SECTOR_SIZE = 512"

definition INODE_MAGIC :: "32 word" where
  "INODE_MAGIC = 0x494e4f44"

text \<open>C's \<^verbatim>\<open>/\<close> and \<^verbatim>\<open>%\<close> on signed integers truncate towards zero.\<close>
definition c_div :: "int \<Rightarrow> int \<Rightarrow> int" where
  "c_div a b = sgn a * sgn b * (\<bar>a\<bar> div \<bar>b\<bar>)"

definition c_mod :: "int \<Rightarrow> int \<Rightarrow> int" where
  "c_mod a b = a - b * c_div a b"

text \<open>Modelled from the spec: the macro \<^verbatim>\<open>DIV_ROUND_UP\<close> (round.h is not among the sources);
  the spec's \<open>ceil(length / SECTOR_SIZE)\<close>.\<close>
definition DIV_ROUND_UP :: "int \<Rightarrow> int \<Rightarrow> int" where
  "DIV_ROUND_UP x step = - ((- x) div step)"

text \<open>The result is a \<^verbatim>\<open>size_t\<close>: the conversion of the quotient to unsigned 32 bits.\<close>
definition bytes_to_sectors :: "int \<Rightarrow> nat" where
  "bytes_to_sectors sz = nat (DIV_ROUND_UP sz DISK_SECTOR_SIZE mod 2 ^ 32)"

datatype fault =
    Assertion_Failure      \<comment> \<open>a failed \<^verbatim>\<open>ASSERT\<close>: the kernel panics\<close>
  | Null_Dereference       \<comment> \<open>a field of a null pointer is read or written\<close>
  | Invalid_Pointer        \<comment> \<open>a pointer to a freed, never allocated or not yet initialised inode is used\<close>
  | Signed_Overflow        \<comment> \<open>a signed operation leaves the range of its type\<close>
  | Out_Of_Bounds          \<comment> \<open>\<^verbatim>\<open>memcpy\<close> outside the bounce buffer\<close>

subsection \<open>Memory and the disk\<close>

text \<open>A buffer is the memory a pointer points to, indexed from the pointer; the callee does
  not know its extent. A sector's content is a buffer of which the first 512 bytes count.\<close>
type_synonym buffer = "nat \<Rightarrow> byte"

definition zeros :: buffer where
  "zeros = (\<lambda>i. 0)"

text \<open>\<^verbatim>\<open>memcpy (dst + doff, src + soff, n)\<close>.\<close>
definition memcpy :: "buffer \<Rightarrow> nat \<Rightarrow> buffer \<Rightarrow> nat \<Rightarrow> nat \<Rightarrow> buffer" where
  "memcpy dst doff src soff n =
     (\<lambda>i. if doff \<le> i \<and> i < doff + n then src (soff + (i - doff)) else dst i)"

text \<open>The 512 bytes at \<^verbatim>\<open>buf + off\<close>, as a sector's content.\<close>
definition sector_at :: "buffer \<Rightarrow> nat \<Rightarrow> buffer" where
  "sector_at buf off = (\<lambda>i. if i < 512 then buf (off + i) else 0)"

subsection \<open>The on-disk inode and its bytes\<close>

text \<open>\<^verbatim>\<open>struct inode_disk\<close>. The field \<^verbatim>\<open>length\<close> is \<open>dlength\<close> here (\<open>length\<close> is
  the length of a list); it is an \<^verbatim>\<open>off_t\<close> at rest.\<close>
record inode_disk =
  start :: disk_sector_t
  dlength :: "32 word"
  magic :: "32 word"
  unused :: "32 word list"

text \<open>Modelled from the spec: the persisted layout is the struct's bytes in declaration order,
  \<open>{start, length, integrity_tag, padding}\<close>; each 32-bit field is stored least significant
  byte first, as on the i386 target of the kernel.\<close>
definition word_byte :: "32 word \<Rightarrow> nat \<Rightarrow> byte" where
  "word_byte w k = ucast (drop_bit (8 * k) w)"

definition word_at :: "buffer \<Rightarrow> nat \<Rightarrow> 32 word" where
  "word_at buf off =
     ucast (buf off) OR push_bit 8 (ucast (buf (off + 1)))
       OR push_bit 16 (ucast (buf (off + 2))) OR push_bit 24 (ucast (buf (off + 3)))"

definition inode_disk_bytes :: "inode_disk \<Rightarrow> buffer" where
  "inode_disk_bytes d =
     (\<lambda>i. if i < 4 then word_byte (start d) i
          else if i < 8 then word_byte (dlength d) (i - 4)
          else if i < 12 then word_byte (magic d) (i - 8)
          else if i < 512 \<and> (i - 12) div 4 < length (unused d)
               then word_byte (unused d ! ((i - 12) div 4)) ((i - 12) mod 4)
          else 0)"

definition inode_disk_of_bytes :: "buffer \<Rightarrow> inode_disk" where
  "inode_disk_of_bytes buf =
     \<lparr>start = word_at buf 0, dlength = word_at buf 4, magic = word_at buf 8,
      unused = map (\<lambda>k. word_at buf (12 + 4 * k)) [0..<125]\<rparr>"

text \<open>What \<^verbatim>\<open>calloc\<close> returns: every byte zero.\<close>
definition calloc_inode_disk :: inode_disk where
  "calloc_inode_disk = \<lparr>start = 0, dlength = 0, magic = 0, unused = replicate 125 0\<rparr>"

subsection \<open>The in-memory inode and the state of the file system\<close>

text \<open>Modelled from the spec: \<^verbatim>\<open>struct lock\<close> (threads/synch.h is not among the sources). Only
  whether \<^verbatim>\<open>lock_init\<close> has run on the lock's storage is kept: \<^verbatim>\<open>malloc\<close> returns storage
  whose content is indeterminate, \<^verbatim>\<open>lock_init\<close> makes it a free lock.\<close>
datatype lock = Lock_Uninitialised | Lock_Free

text \<open>\<^verbatim>\<open>struct inode\<close>. The list element \<^verbatim>\<open>elem\<close> is the inode's membership in
  \<open>open_inodes\<close> below.\<close>
record inode =
  sector :: disk_sector_t
  open_cnt :: int
  removed :: bool
  data :: inode_disk
  inode_lock :: lock
  dir_lock :: lock

type_synonym inode_ptr = nat

text \<open>A record of the calls made to the collaborators, in order.\<close>
datatype event =
    Disk_Read disk_sector_t
  | Disk_Write disk_sector_t buffer
  | Free_Map_Allocate nat
  | Free_Map_Release disk_sector_t nat

text \<open>\<open>disk\<close> is \<^verbatim>\<open>filesys_disk\<close>; \<open>free_map\<close> says which sectors are in use;
  \<open>open_inodes\<close> is the list of that name, front first; \<open>heap\<close> holds the inodes that
  \<^verbatim>\<open>malloc\<close> has handed out and \<^verbatim>\<open>free\<close> has not taken back, each from the moment
  \<^verbatim>\<open>inode_open\<close> has assigned its fields and initialised its \<^verbatim>\<open>inode_lock\<close>: until then the
  content of the block is indeterminate, and the block is not in \<open>heap\<close>.\<close>
record filesys =
  disk :: "disk_sector_t \<Rightarrow> buffer"
  free_map :: "disk_sector_t \<Rightarrow> bool"
  open_inodes :: "inode_ptr list"
  heap :: "inode_ptr \<Rightarrow> inode option"
  events :: "event list"

text \<open>Modelled from the spec: \<^verbatim>\<open>disk_read\<close> and \<^verbatim>\<open>disk_write\<close> (devices/disk.c is not among
  the sources): whole-sector, synchronous transfers.\<close>
definition disk_read :: "filesys \<Rightarrow> disk_sector_t \<Rightarrow> buffer \<times> filesys" where
  "disk_read st sec = (sector_at (disk st sec) 0, st\<lparr>events := events st @ [Disk_Read sec]\<rparr>)"

definition disk_write :: "filesys \<Rightarrow> disk_sector_t \<Rightarrow> buffer \<Rightarrow> filesys" where
  "disk_write st sec buf =
     st\<lparr>disk := (disk st)(sec := sector_at buf 0),
        events := events st @ [Disk_Write sec (sector_at buf 0)]\<rparr>"

text \<open>The sectors \<open>first, first + 1, ..., first + cnt - 1\<close> in sector arithmetic.\<close>
definition in_sectors :: "disk_sector_t \<Rightarrow> nat \<Rightarrow> disk_sector_t \<Rightarrow> bool" where
  "in_sectors first cnt s \<longleftrightarrow> unat (s - first) < cnt"

text \<open>Modelled from the spec: the Space Allocator (filesys/free-map.c is not among the
  sources). \<open>allocate(count) -> (ok, first_sector_id)\<close>: the allocator's answer \<open>ans\<close> is an
  input, \<open>None\<close> when it refuses; \<open>release(start_id, count)\<close> gives the sectors back.\<close>
definition free_map_allocate ::
  "filesys \<Rightarrow> disk_sector_t option \<Rightarrow> nat \<Rightarrow> disk_sector_t option \<times> filesys" where
  "free_map_allocate st ans cnt =
     (case ans of
        None \<Rightarrow> (None, st\<lparr>events := events st @ [Free_Map_Allocate cnt]\<rparr>)
      | Some first \<Rightarrow>
          (Some first,
           st\<lparr>free_map := (\<lambda>s. in_sectors first cnt s \<or> free_map st s),
              events := events st @ [Free_Map_Allocate cnt]\<rparr>))"

definition free_map_release :: "filesys \<Rightarrow> disk_sector_t \<Rightarrow> nat \<Rightarrow> filesys" where
  "free_map_release st first cnt =
     st\<lparr>free_map := (\<lambda>s. \<not> in_sectors first cnt s \<and> free_map st s),
        events := events st @ [Free_Map_Release first cnt]\<rparr>"

subsection \<open>Creation\<close>

text \<open>\<^verbatim>\<open>inode_create\<close>. \<open>calloc_ok\<close> says whether \<^verbatim>\<open>calloc\<close> succeeds, \<open>ans\<close> is the
  allocator's answer. The second \<^verbatim>\<open>ASSERT\<close> compares two constants and holds.\<close>
definition inode_create ::
  "filesys \<Rightarrow> bool \<Rightarrow> disk_sector_t option \<Rightarrow> disk_sector_t \<Rightarrow> int \<Rightarrow> fault + (bool \<times> filesys)" where
  "inode_create st calloc_ok ans sec len =
     (if \<not> len \<ge> 0 then Inl Assertion_Failure
      else if \<not> calloc_ok then Inr (False, st)
      else
        let sectors = bytes_to_sectors len;
            disk_inode = calloc_inode_disk\<lparr>dlength := word_of_int len, magic := INODE_MAGIC\<rparr>
        in case free_map_allocate st ans sectors of
             (None, st1) \<Rightarrow> Inr (False, st1)
           | (Some first, st1) \<Rightarrow>
               let disk_inode = disk_inode\<lparr>start := first\<rparr>;
                   st2 = disk_write st1 sec (inode_disk_bytes disk_inode);
                   st3 = (if sectors > 0
                          then foldl (\<lambda>s i. disk_write s (start disk_inode + of_nat i) zeros)
                                 st2 [0..<sectors]
                          else st2)
               in Inr (True, st3))"

subsection \<open>The list of open inodes\<close>

definition inode_init :: "filesys \<Rightarrow> filesys" where
  "inode_init st = st\<lparr>open_inodes := []\<rparr>"

text \<open>\<^verbatim>\<open>inode_reopen\<close>; \<^verbatim>\<open>open_cnt++\<close> on an \<^verbatim>\<open>int\<close>.\<close>
definition inode_reopen :: "filesys \<Rightarrow> inode_ptr option \<Rightarrow> fault + (inode_ptr option \<times> filesys)" where
  "inode_reopen st inode =
     (case inode of
        None \<Rightarrow> Inr (None, st)
      | Some p \<Rightarrow>
          (case heap st p of
             None \<Rightarrow> Inl Invalid_Pointer
           | Some i \<Rightarrow>
               if \<not> is_off_t (open_cnt i + 1) then Inl Signed_Overflow
               else Inr (Some p, st\<lparr>heap := (heap st)(p \<mapsto> i\<lparr>open_cnt := open_cnt i + 1\<rparr>)\<rparr>)))"

text \<open>The search loop of \<^verbatim>\<open>inode_open\<close>: the first inode of the list whose sector is \<open>sec\<close>.\<close>
fun find_open :: "filesys \<Rightarrow> inode_ptr list \<Rightarrow> disk_sector_t \<Rightarrow> fault + inode_ptr option" where
  "find_open st [] sec = Inr None"
| "find_open st (p # ps) sec =
     (case heap st p of
        None \<Rightarrow> Inl Invalid_Pointer
      | Some i \<Rightarrow> if sector i = sec then Inr (Some p) else find_open st ps sec)"

text \<open>What \<^verbatim>\<open>inode_open\<close> has done when it releases \<^verbatim>\<open>inode_list_lock\<close>: it has returned, or
  it has pushed a new block to the front of the list and goes on.\<close>
datatype open_ctl = Returned "inode_ptr option" | Pushed inode_ptr

text \<open>\<^verbatim>\<open>inode_open\<close> with \<^verbatim>\<open>inode_list_lock\<close> held: the search, \<^verbatim>\<open>inode_reopen\<close> of the inode
  found, or \<^verbatim>\<open>malloc\<close> and \<^verbatim>\<open>list_push_front\<close>. \<open>m\<close> is what \<^verbatim>\<open>malloc\<close> returns when it is
  called: \<open>None\<close> for a null pointer, or the address of a block that is not in use. In the
  state with the block pushed, the block is in the list and none of its fields is
  assigned.\<close>
definition inode_open_locked ::
  "filesys \<Rightarrow> inode_ptr option \<Rightarrow> disk_sector_t \<Rightarrow> fault + (open_ctl \<times> filesys)" where
  "inode_open_locked st m sec =
     (case find_open st (open_inodes st) sec of
        Inl f \<Rightarrow> Inl f
      | Inr (Some p) \<Rightarrow>
          (case inode_reopen st (Some p) of
             Inl f \<Rightarrow> Inl f
           | Inr (inode, st') \<Rightarrow> Inr (Returned inode, st'))
      | Inr None \<Rightarrow>
          (case m of
             None \<Rightarrow> Inr (Returned None, st)
           | Some p \<Rightarrow> Inr (Pushed p, st\<lparr>open_inodes := p # open_inodes st\<rparr>)))"

text \<open>\<^verbatim>\<open>inode_open\<close> after the release of \<^verbatim>\<open>inode_list_lock\<close>: the assignments, \<^verbatim>\<open>disk_read\<close>
  and \<^verbatim>\<open>lock_init\<close> of \<^verbatim>\<open>inode_lock\<close>. The fields of the new inode are the ones the function
  assigns; \<^verbatim>\<open>dir_lock\<close> is not among them.\<close>
definition inode_open_unlocked ::
  "filesys \<Rightarrow> inode_ptr \<Rightarrow> disk_sector_t \<Rightarrow> inode_ptr option \<times> filesys" where
  "inode_open_unlocked st1 p sec =
     (let (blk, st2) = disk_read st1 sec;
          i = \<lparr>sector = sec, open_cnt = 1, removed = False,
               data = inode_disk_of_bytes blk,
               inode_lock = Lock_Free, dir_lock = Lock_Uninitialised\<rparr>
      in (Some p, st2\<lparr>heap := (heap st2)(p \<mapsto> i)\<rparr>))"

text \<open>\<^verbatim>\<open>inode_open\<close>, run from its entry to its return.\<close>
definition inode_open ::
  "filesys \<Rightarrow> inode_ptr option \<Rightarrow> disk_sector_t \<Rightarrow> fault + (inode_ptr option \<times> filesys)" where
  "inode_open st m sec =
     (case inode_open_locked st m sec of
        Inl f \<Rightarrow> Inl f
      | Inr (Returned inode, st') \<Rightarrow> Inr (inode, st')
      | Inr (Pushed p, st1) \<Rightarrow> Inr (inode_open_unlocked st1 p sec))"

definition inode_get_inumber :: "filesys \<Rightarrow> inode_ptr option \<Rightarrow> fault + disk_sector_t" where
  "inode_get_inumber st inode =
     (case inode of
        None \<Rightarrow> Inl Null_Dereference
      | Some p \<Rightarrow> (case heap st p of None \<Rightarrow> Inl Invalid_Pointer | Some i \<Rightarrow> Inr (sector i)))"

text \<open>\<^verbatim>\<open>inode_close\<close>; \<^verbatim>\<open>--open_cnt\<close> on an \<^verbatim>\<open>int\<close>, \<^verbatim>\<open>list_remove\<close>, the two releases and
  \<^verbatim>\<open>free\<close>.\<close>
definition inode_close :: "filesys \<Rightarrow> inode_ptr option \<Rightarrow> fault + filesys" where
  "inode_close st inode =
     (case inode of
        None \<Rightarrow> Inr st
      | Some p \<Rightarrow>
          (case heap st p of
             None \<Rightarrow> Inl Invalid_Pointer
           | Some i \<Rightarrow>
               if \<not> is_off_t (open_cnt i - 1) then Inl Signed_Overflow
               else if open_cnt i - 1 = 0 then
                 let st1 = st\<lparr>open_inodes := remove1 p (open_inodes st)\<rparr>;
                     st2 = (if removed i
                            then free_map_release (free_map_release st1 (sector i) 1)
                                   (start (data i)) (bytes_to_sectors (sint (dlength (data i))))
                            else st1)
                 in Inr (st2\<lparr>heap := (heap st2)(p := None)\<rparr>)
               else Inr (st\<lparr>heap := (heap st)(p \<mapsto> i\<lparr>open_cnt := open_cnt i - 1\<rparr>)\<rparr>)))"

definition inode_remove :: "filesys \<Rightarrow> inode_ptr option \<Rightarrow> fault + filesys" where
  "inode_remove st inode =
     (case inode of
        None \<Rightarrow> Inl Assertion_Failure
      | Some p \<Rightarrow>
          (case heap st p of
             None \<Rightarrow> Inl Invalid_Pointer
           | Some i \<Rightarrow> Inr (st\<lparr>heap := (heap st)(p \<mapsto> i\<lparr>removed := True\<rparr>)\<rparr>)))"

text \<open>\<^verbatim>\<open>inode_length\<close> reads the field with no check of the pointer.\<close>
definition inode_length :: "filesys \<Rightarrow> inode_ptr option \<Rightarrow> fault + int" where
  "inode_length st inode =
     (case inode of
        None \<Rightarrow> Inl Null_Dereference
      | Some p \<Rightarrow>
          (case heap st p of
             None \<Rightarrow> Inl Invalid_Pointer
           | Some i \<Rightarrow> Inr (sint (dlength (data i)))))"

definition inode_dir_init :: "filesys \<Rightarrow> inode_ptr option \<Rightarrow> fault + filesys" where
  "inode_dir_init st inode =
     (case inode of
        None \<Rightarrow> Inr st
      | Some p \<Rightarrow>
          (case heap st p of
             None \<Rightarrow> Inl Invalid_Pointer
           | Some i \<Rightarrow> Inr (st\<lparr>heap := (heap st)(p \<mapsto> i\<lparr>dir_lock := Lock_Free\<rparr>)\<rparr>)))"

subsection \<open>Reading and writing\<close>

text \<open>\<^verbatim>\<open>byte_to_sector\<close>. The quotient is an \<^verbatim>\<open>int\<close>, converted to unsigned for the sum; \<open>- 1\<close>
  is the sector \<open>0xffffffff\<close>.\<close>
definition byte_to_sector :: "filesys \<Rightarrow> inode_ptr option \<Rightarrow> int \<Rightarrow> fault + disk_sector_t" where
  "byte_to_sector st inode pos =
     (case inode of
        None \<Rightarrow> Inl Assertion_Failure
      | Some p \<Rightarrow>
          (case heap st p of
             None \<Rightarrow> Inl Invalid_Pointer
           | Some i \<Rightarrow>
               Inr (if pos < sint (dlength (data i))
                    then start (data i) + word_of_int (c_div pos DISK_SECTOR_SIZE)
                    else - 1)))"

text \<open>What one pass through the body of a \<^verbatim>\<open>while\<close> loop does to the loop.\<close>
datatype 'a loop_ctl = Break | Continue 'a

text \<open>The body of the loop of \<^verbatim>\<open>inode_read_at\<close>, entered with \<open>sz > 0\<close>. \<open>bounce\<close> says
  whether the bounce buffer is allocated, \<open>malloc_ok\<close> whether its \<^verbatim>\<open>malloc\<close> succeeds. A
  pass that goes on returns the buffer, the state, \<open>chunk_size\<close> and \<open>bounce\<close>.\<close>
definition read_body ::
  "filesys \<Rightarrow> inode_ptr option \<Rightarrow> buffer \<Rightarrow> bool \<Rightarrow> int \<Rightarrow> int \<Rightarrow> int \<Rightarrow> bool
     \<Rightarrow> fault + (buffer \<times> filesys \<times> int \<times> bool) loop_ctl" where
  "read_body st inode buffer malloc_ok sz offset bytes_read bounce =
     (case byte_to_sector st inode offset of
        Inl f \<Rightarrow> Inl f
      | Inr sector_idx \<Rightarrow>
          (case inode_length st inode of
             Inl f \<Rightarrow> Inl f
           | Inr len \<Rightarrow>
               if \<not> is_off_t (len - offset) then Inl Signed_Overflow
               else
                 let sector_ofs = c_mod offset DISK_SECTOR_SIZE;
                     inode_left = len - offset;
                     sector_left = DISK_SECTOR_SIZE - sector_ofs;
                     min_left = (if inode_left < sector_left then inode_left else sector_left);
                     chunk_size = (if sz < min_left then sz else min_left)
                 in if chunk_size \<le> 0 then Inr Break
                    else if sector_ofs = 0 \<and> chunk_size = DISK_SECTOR_SIZE then
                      let (blk, st1) = disk_read st sector_idx
                      in Inr (Continue (memcpy buffer (nat bytes_read) blk 0 512, st1,
                                        chunk_size, bounce))
                    else if \<not> bounce \<and> \<not> malloc_ok then Inr Break
                    else
                      let (blk, st1) = disk_read st sector_idx
                      in if sector_ofs < 0 then Inl Out_Of_Bounds
                         else Inr (Continue (memcpy buffer (nat bytes_read) blk (nat sector_ofs)
                                               (nat chunk_size),
                                             st1, chunk_size, True))))"

text \<open>The body of the loop of \<^verbatim>\<open>inode_write_at\<close>.\<close>
definition write_body ::
  "filesys \<Rightarrow> inode_ptr option \<Rightarrow> buffer \<Rightarrow> bool \<Rightarrow> int \<Rightarrow> int \<Rightarrow> int \<Rightarrow> bool
     \<Rightarrow> fault + (filesys \<times> int \<times> bool) loop_ctl" where
  "write_body st inode buffer malloc_ok sz offset bytes_written bounce =
     (case byte_to_sector st inode offset of
        Inl f \<Rightarrow> Inl f
      | Inr sector_idx \<Rightarrow>
          (case inode_length st inode of
             Inl f \<Rightarrow> Inl f
           | Inr len \<Rightarrow>
               if \<not> is_off_t (len - offset) then Inl Signed_Overflow
               else
                 let sector_ofs = c_mod offset DISK_SECTOR_SIZE;
                     inode_left = len - offset;
                     sector_left = DISK_SECTOR_SIZE - sector_ofs;
                     min_left = (if inode_left < sector_left then inode_left else sector_left);
                     chunk_size = (if sz < min_left then sz else min_left)
                 in if chunk_size \<le> 0 then Inr Break
                    else if sector_ofs = 0 \<and> chunk_size = DISK_SECTOR_SIZE then
                      Inr (Continue (disk_write st sector_idx (sector_at buffer (nat bytes_written)),
                                     chunk_size, bounce))
                    else if \<not> bounce \<and> \<not> malloc_ok then Inr Break
                    else
                      let (blk, st1) = (if sector_ofs > 0 \<or> chunk_size < sector_left
                                        then disk_read st sector_idx
                                        else (zeros, st))
                      in if sector_ofs < 0 then Inl Out_Of_Bounds
                         else Inr (Continue (disk_write st1 sector_idx
                                               (memcpy blk (nat sector_ofs) buffer (nat bytes_written)
                                                  (nat chunk_size)),
                                             chunk_size, True))))"

text \<open>The loop of \<^verbatim>\<open>inode_read_at\<close>: \<^verbatim>\<open>while (size > 0)\<close>, with the \<^verbatim>\<open>Advance\<close> step.\<close>
function inode_read_loop ::
  "filesys \<Rightarrow> inode_ptr option \<Rightarrow> buffer \<Rightarrow> bool \<Rightarrow> int \<Rightarrow> int \<Rightarrow> int \<Rightarrow> bool
     \<Rightarrow> fault + (int \<times> buffer \<times> filesys)" where
  "inode_read_loop st inode buffer malloc_ok sz offset bytes_read bounce =
     (if sz > 0 then
        (case read_body st inode buffer malloc_ok sz offset bytes_read bounce of
           Inl f \<Rightarrow> Inl f
         | Inr Break \<Rightarrow> Inr (bytes_read, buffer, st)
         | Inr (Continue (buffer', st', chunk_size, bounce')) \<Rightarrow>
             inode_read_loop st' inode buffer' malloc_ok (sz - chunk_size) (offset + chunk_size)
               (bytes_read + chunk_size) bounce')
      else Inr (bytes_read, buffer, st))"
  by pat_completeness auto
termination
  by (relation "measure (\<lambda>(st, inode, buffer, malloc_ok, sz, offset, bytes_read, bounce). nat sz)")
     (auto simp: read_body_def Let_def disk_read_def split: sum.splits if_splits prod.splits)

declare inode_read_loop.simps [simp del]

text \<open>\<^verbatim>\<open>inode_read_at\<close>: the bytes read so far are 0 and the bounce buffer is null. It
  returns \<open>bytes_read\<close>, and the model returns the buffer and the state with it.\<close>
definition inode_read_at ::
  "filesys \<Rightarrow> inode_ptr option \<Rightarrow> buffer \<Rightarrow> bool \<Rightarrow> int \<Rightarrow> int
     \<Rightarrow> fault + (int \<times> buffer \<times> filesys)" where
  "inode_read_at st inode buffer malloc_ok sz offset =
     inode_read_loop st inode buffer malloc_ok sz offset 0 False"

text \<open>The loop of \<^verbatim>\<open>inode_write_at\<close>, and the function: the bytes written so far are 0 and
  the bounce buffer is null. It returns \<open>bytes_written\<close>, and the model returns the state
  with it.\<close>
function inode_write_loop ::
  "filesys \<Rightarrow> inode_ptr option \<Rightarrow> buffer \<Rightarrow> bool \<Rightarrow> int \<Rightarrow> int \<Rightarrow> int \<Rightarrow> bool
     \<Rightarrow> fault + (int \<times> filesys)" where
  "inode_write_loop st inode buffer malloc_ok sz offset bytes_written bounce =
     (if sz > 0 then
        (case write_body st inode buffer malloc_ok sz offset bytes_written bounce of
           Inl f \<Rightarrow> Inl f
         | Inr Break \<Rightarrow> Inr (bytes_written, st)
         | Inr (Continue (st', chunk_size, bounce')) \<Rightarrow>
             inode_write_loop st' inode buffer malloc_ok (sz - chunk_size) (offset + chunk_size)
               (bytes_written + chunk_size) bounce')
      else Inr (bytes_written, st))"
  by pat_completeness auto
termination
  by (relation "measure (\<lambda>(st, inode, buffer, malloc_ok, sz, offset, bytes_written, bounce). nat sz)")
     (auto simp: write_body_def Let_def disk_read_def split: sum.splits if_splits prod.splits)

declare inode_write_loop.simps [simp del]

definition inode_write_at ::
  "filesys \<Rightarrow> inode_ptr option \<Rightarrow> buffer \<Rightarrow> bool \<Rightarrow> int \<Rightarrow> int \<Rightarrow> fault + (int \<times> filesys)" where
  "inode_write_at st inode buffer malloc_ok sz offset =
     inode_write_loop st inode buffer malloc_ok sz offset 0 False"

section \<open>Notions for the properties\<close>

subsection \<open>Positions in a file\<close>

text \<open>\<open>chunk_size\<close> as the loops compute it.\<close>
definition chunk_of :: "int \<Rightarrow> int \<Rightarrow> int \<Rightarrow> int" where
  "chunk_of len sz offset = min sz (min (len - offset) (512 - offset mod 512))"

text \<open>The sector that holds byte \<open>q\<close> of the file, and that byte on the disk.\<close>
definition file_sector :: "inode \<Rightarrow> int \<Rightarrow> disk_sector_t" where
  "file_sector i q = start (data i) + word_of_int (q div 512)"

definition file_byte :: "filesys \<Rightarrow> inode \<Rightarrow> int \<Rightarrow> byte" where
  "file_byte st i q = disk st (file_sector i q) (nat (q mod 512))"

subsection \<open>The heap and the list of open inodes\<close>

text \<open>Two heaps that hold inodes at the same addresses with the same descriptors.\<close>
definition same_data :: "(inode_ptr \<Rightarrow> inode option) \<Rightarrow> (inode_ptr \<Rightarrow> inode option) \<Rightarrow> bool" where
  "same_data H H' \<longleftrightarrow> (\<forall>q. map_option data (H q) = map_option data (H' q))"

text \<open>The invariant of the list of open inodes: no pointer twice, every pointer to a live
  inode with at least one opener, and no two inodes for one sector.\<close>
definition registry_ok :: "filesys \<Rightarrow> bool" where
  "registry_ok st \<longleftrightarrow>
     distinct (open_inodes st)
     \<and> (\<forall>p\<in>set (open_inodes st). case heap st p of None \<Rightarrow> False | Some i \<Rightarrow> 1 \<le> open_cnt i)
     \<and> (\<forall>p\<in>set (open_inodes st). \<forall>q\<in>set (open_inodes st).
           map_option sector (heap st p) = map_option sector (heap st q) \<longrightarrow> p = q)"

text \<open>A call of \<^verbatim>\<open>inode_open\<close> (with what \<^verbatim>\<open>malloc\<close> returns if it is called),
  \<^verbatim>\<open>inode_reopen\<close> or \<^verbatim>\<open>inode_close\<close>.\<close>
datatype request =
    Open disk_sector_t "inode_ptr option"
  | Reopen "inode_ptr option"
  | Close "inode_ptr option"

fun perform :: "filesys \<Rightarrow> request \<Rightarrow> fault + filesys" where
  "perform st (Open sec m) =
     (case inode_open st m sec of Inl f \<Rightarrow> Inl f | Inr (inode, st') \<Rightarrow> Inr st')"
| "perform st (Reopen inode) =
     (case inode_reopen st inode of Inl f \<Rightarrow> Inl f | Inr (inode', st') \<Rightarrow> Inr st')"
| "perform st (Close inode) = inode_close st inode"

fun perform_all :: "filesys \<Rightarrow> request list \<Rightarrow> fault + filesys" where
  "perform_all st [] = Inr st"
| "perform_all st (r # rs) =
     (case perform st r of Inl f \<Rightarrow> Inl f | Inr st' \<Rightarrow> perform_all st' rs)"

text \<open>\<^verbatim>\<open>malloc\<close> returns the address of a block that is not in use.\<close>
fun malloc_fresh :: "filesys \<Rightarrow> request \<Rightarrow> bool" where
  "malloc_fresh st (Open sec (Some p)) = (heap st p = None)"
| "malloc_fresh st r = True"

fun mallocs_fresh :: "filesys \<Rightarrow> request list \<Rightarrow> bool" where
  "mallocs_fresh st [] = True"
| "mallocs_fresh st (r # rs) =
     (malloc_fresh st r
      \<and> (case perform st r of Inl f \<Rightarrow> True | Inr st' \<Rightarrow> mallocs_fresh st' rs))"

subsection \<open>A small file system to evaluate on\<close>

text \<open>A file of 1000 bytes in the sectors 10 and 11, its inode in sector 5 and open once
  at address 1; the disk holds zeros.\<close>
definition example_inode :: inode where
  "example_inode =
     \<lparr>sector = 5, open_cnt = 1, removed = False,
      data = \<lparr>start = 10, dlength = 1000, magic = INODE_MAGIC, unused = replicate 125 0\<rparr>,
      inode_lock = Lock_Free, dir_lock = Lock_Uninitialised\<rparr>"

definition example_fs :: filesys where
  "example_fs =
     \<lparr>disk = (\<lambda>s. zeros), free_map = (\<lambda>s. s = 5 \<or> s = 10 \<or> s = 11),
      open_inodes = [1], heap = [1 \<mapsto> example_inode], events = []\<rparr>"

text \<open>The example file system with every byte of the disk 7.\<close>
definition example_fs_sevens :: filesys where
  "example_fs_sevens = example_fs\<lparr>disk := (\<lambda>s i. 7)\<rparr>"

definition example_requests :: "request list" where
  "example_requests =
     [Open 5 None, Open 7 (Some 2), Close (Some 1), Close (Some 1), Reopen (Some 2)]"

section \<open>Null handles\<close>

text \<open>
  C6, as the code has it. \<^verbatim>\<open>inode_close\<close> ignores a null pointer and changes nothing.
  \<^verbatim>\<open>inode_remove\<close> asserts that the pointer is not null, so a null pointer is a failed
  assertion. \<^verbatim>\<open>inode_length\<close> has no assertion: it reads \<^verbatim>\<open>inode->data.length\<close> at once, so a
  null pointer is dereferenced.
\<close>
theorem null_handle_close_remove_length:
  "inode_close st None = Inr st
   \<and> inode_remove st None = Inl Assertion_Failure
   \<and> inode_length st None = Inl Null_Dereference"
  by (simp add: inode_close_def inode_remove_def inode_length_def)

theorem null_handle_close_remove_length_witness:
  "inode_close example_fs None = Inr example_fs
   \<and> inode_remove example_fs None = Inl Assertion_Failure
   \<and> inode_length example_fs None = Inl Null_Dereference"
  using null_handle_close_remove_length [of example_fs] by simp

text \<open>The claim C6 as stated says that \<^verbatim>\<open>get_length\<close> on a null handle is a failed assertion;
  it is not.\<close>
theorem length_of_null_is_no_assertion:
  "inode_length example_fs None \<noteq> Inl Assertion_Failure"
  by (simp add: inode_length_def)

section \<open>Creation that fails\<close>

text \<open>
  C3. When \<^verbatim>\<open>calloc\<close> fails or the allocator refuses, \<^verbatim>\<open>inode_create\<close> returns false, and
  the state it leaves is the state it found but for the record of calls: the disk, the free
  map, the open inodes and the heap are as before, and the only call made to a
  collaborator is the request to the allocator (none at all when \<^verbatim>\<open>calloc\<close> failed), so no
  sector is written. The length is one that passes the assertion at the function's entry;
  a negative length stops the kernel there, before any call.
\<close>
theorem create_failure_writes_nothing:
  assumes "\<not> calloc_ok \<or> ans = None"
  shows "(0 \<le> len \<longrightarrow>
            inode_create st calloc_ok ans sec len =
              Inr (False, st\<lparr>events := events st @
                     (if calloc_ok then [Free_Map_Allocate (bytes_to_sectors len)] else [])\<rparr>))
         \<and> (len < 0 \<longrightarrow> inode_create st calloc_ok ans sec len = Inl Assertion_Failure)"
  using assms by (auto simp: inode_create_def free_map_allocate_def Let_def)

theorem create_failure_writes_nothing_witness:
  "inode_create example_fs True None 7 1000 =
     Inr (False, example_fs\<lparr>events := events example_fs @
            [Free_Map_Allocate (bytes_to_sectors 1000)]\<rparr>)
   \<and> inode_create example_fs False (Some 20) 7 1000 = Inr (False, example_fs)
   \<and> inode_create example_fs True None 7 (- 1) = Inl Assertion_Failure"
  using create_failure_writes_nothing [of True None 1000 example_fs 7]
        create_failure_writes_nothing [of False "Some 20" 1000 example_fs 7]
        create_failure_writes_nothing [of True None "- 1" example_fs 7]
  by simp

section \<open>The read and write loops\<close>

text \<open>From here on the offset is not negative, so C's division and remainder are the
  mathematical ones.\<close>

lemma read_body_chunk:
  "read_body st inode buffer malloc_ok sz offset bytes_read bounce = Inr (Continue (b, st', c, bo))
   \<Longrightarrow> 0 < c \<and> c \<le> sz"
  by (auto simp: read_body_def Let_def disk_read_def
      split: sum.splits if_splits prod.splits)

lemma write_body_chunk:
  "write_body st inode buffer malloc_ok sz offset bytes_written bounce = Inr (Continue (st', c, bo))
   \<Longrightarrow> 0 < c \<and> c \<le> sz"
  by (auto simp: write_body_def Let_def disk_read_def
      split: sum.splits if_splits prod.splits)

lemma c_div_nonneg: "0 \<le> a \<Longrightarrow> c_div a 512 = a div 512"
  by (cases "a = 0") (simp_all add: c_div_def)

lemma c_mod_nonneg: "0 \<le> a \<Longrightarrow> c_mod a 512 = a mod 512"
  by (simp add: c_mod_def c_div_nonneg minus_mult_div_eq_mod)

lemma byte_to_sector_live:
  "heap st p = Some i \<Longrightarrow> 0 \<le> pos \<Longrightarrow>
   byte_to_sector st (Some p) pos =
     Inr (if pos < sint (dlength (data i)) then file_sector i pos else - 1)"
  by (simp add: byte_to_sector_def DISK_SECTOR_SIZE_def c_div_nonneg file_sector_def)

lemma inode_length_live:
  "heap st p = Some i \<Longrightarrow> inode_length st (Some p) = Inr (sint (dlength (data i)))"
  by (simp add: inode_length_def)

lemma chunk_of_pos: "0 < sz \<Longrightarrow> offset < len \<Longrightarrow> 0 < chunk_of len sz offset"
  by (simp add: chunk_of_def)

lemma chunk_of_nonpos: "len \<le> offset \<Longrightarrow> chunk_of len sz offset \<le> 0"
  by (simp add: chunk_of_def)

lemma if_less_min: "(if a < b then a else b) = min a (b::int)"
  by (simp add: min_def)

lemma read_body_spec:
  assumes h: "heap st p = Some i" and len: "len = sint (dlength (data i))"
    and off: "0 \<le> offset" and ov: "is_off_t (len - offset)" and sz: "0 < sz"
  shows "read_body st (Some p) buffer malloc_ok sz offset bytes_read bounce =
    (if len \<le> offset then Inr Break
     else if \<not> (offset mod 512 = 0 \<and> chunk_of len sz offset = 512) \<and> \<not> bounce \<and> \<not> malloc_ok
       then Inr Break
     else Inr (Continue
       (memcpy buffer (nat bytes_read) (sector_at (disk st (file_sector i offset)) 0)
          (nat (offset mod 512)) (nat (chunk_of len sz offset)),
        st\<lparr>events := events st @ [Disk_Read (file_sector i offset)]\<rparr>,
        chunk_of len sz offset,
        bounce \<or> \<not> (offset mod 512 = 0 \<and> chunk_of len sz offset = 512))))"
proof -
  have m: "\<not> offset mod 512 < 0" by simp
  have c: "len \<le> offset \<Longrightarrow> chunk_of len sz offset \<le> 0"
    "\<not> len \<le> offset \<Longrightarrow> \<not> chunk_of len sz offset \<le> 0"
    using sz by (simp_all add: chunk_of_def)
  show ?thesis
    unfolding read_body_def DISK_SECTOR_SIZE_def Let_def if_less_min c_mod_nonneg [OF off]
      byte_to_sector_live [OF h off] inode_length_live [OF h] sum.case len [symmetric]
      chunk_of_def [symmetric] disk_read_def prod.case
    using ov m c by (cases "len \<le> offset") auto
qed

lemma write_body_spec:
  assumes h: "heap st p = Some i" and len: "len = sint (dlength (data i))"
    and off: "0 \<le> offset" and ov: "is_off_t (len - offset)" and sz: "0 < sz"
  shows "write_body st (Some p) buffer malloc_ok sz offset bytes_written bounce =
    (if len \<le> offset then Inr Break
     else if offset mod 512 = 0 \<and> chunk_of len sz offset = 512 then
       Inr (Continue
         (disk_write st (file_sector i offset) (sector_at buffer (nat bytes_written)), 512, bounce))
     else if \<not> bounce \<and> \<not> malloc_ok then Inr Break
     else Inr (Continue
       (disk_write (snd (disk_read st (file_sector i offset))) (file_sector i offset)
          (memcpy (fst (disk_read st (file_sector i offset))) (nat (offset mod 512))
             buffer (nat bytes_written) (nat (chunk_of len sz offset))),
        chunk_of len sz offset, True)))"
proof -
  have m: "\<not> offset mod 512 < 0" by simp
  have c: "len \<le> offset \<Longrightarrow> chunk_of len sz offset \<le> 0"
    "\<not> len \<le> offset \<Longrightarrow> \<not> chunk_of len sz offset \<le> 0"
    using sz by (simp_all add: chunk_of_def)
  have d: "chunk_of len sz offset \<le> 512 - offset mod 512"
    by (simp add: chunk_of_def)
  show ?thesis
    unfolding write_body_def DISK_SECTOR_SIZE_def Let_def if_less_min c_mod_nonneg [OF off]
      byte_to_sector_live [OF h off] inode_length_live [OF h] sum.case len [symmetric]
      chunk_of_def [symmetric]
    using ov m c d by (cases "len \<le> offset") (auto split: prod.splits)
qed

lemma chunk_of_bounds:
  "chunk_of len sz offset \<le> sz" "chunk_of len sz offset \<le> len - offset"
  "chunk_of len sz offset \<le> 512 - offset mod 512"
  by (simp_all add: chunk_of_def)

lemma same_sector:
  fixes offset d :: int
  assumes "0 \<le> d" and "d < 512 - offset mod 512"
  shows "(offset + d) div 512 = offset div 512" and "(offset + d) mod 512 = offset mod 512 + d"
proof -
  have "offset + d = 512 * (offset div 512) + (offset mod 512 + d)" by simp
  moreover have "0 \<le> offset mod 512 + d" "offset mod 512 + d < 512" using assms by simp_all
  ultimately show "(offset + d) div 512 = offset div 512"
    and "(offset + d) mod 512 = offset mod 512 + d"
    by (metis div_pos_pos_trivial add.commute add.right_neutral div_mult_self2 zero_neq_numeral,
        metis mod_pos_pos_trivial mod_mult_self4)
qed

lemma file_byte_chunk:
  assumes "0 \<le> d" and "d < 512 - offset mod 512" and "0 \<le> offset"
  shows "sector_at (disk st (file_sector i offset)) 0 (nat (offset mod 512 + d)) =
         file_byte st i (offset + d)"
proof -
  have "nat (offset mod 512 + d) < 512" using assms by linarith
  then show ?thesis
    using same_sector [OF assms(1,2)]
    by (simp add: file_byte_def file_sector_def sector_at_def)
qed

lemma read_loop_spec:
  "heap st p = Some i \<Longrightarrow> len = sint (dlength (data i)) \<Longrightarrow>
   0 \<le> offset \<Longrightarrow> is_off_t (len - offset) \<Longrightarrow> 0 \<le> br \<Longrightarrow>
   \<exists>n b' es.
     inode_read_loop st (Some p) buffer ok sz offset br bounce =
       Inr (br + n, b', st\<lparr>events := events st @ es\<rparr>)
     \<and> 0 \<le> n \<and> n \<le> max 0 (min sz (len - offset))
     \<and> (bounce \<or> ok \<longrightarrow> n = max 0 (min sz (len - offset)))
     \<and> (\<forall>e\<in>set es. \<exists>q. offset \<le> q \<and> q < offset + n \<and> e = Disk_Read (file_sector i q))
     \<and> (\<forall>j. b' j = (if br \<le> int j \<and> int j < br + n
                      then file_byte st i (offset + (int j - br)) else buffer j))"
proof (induction "nat sz" arbitrary: st buffer sz offset br bounce rule: less_induct)
  case less
  note h = less.prems(1) and len = less.prems(2) and off = less.prems(3)
    and ov = less.prems(4) and br = less.prems(5)
  let ?loop = "inode_read_loop st (Some p) buffer ok sz offset br bounce"
  show ?case
  proof (cases "0 < sz \<and> offset < len
      \<and> \<not> (\<not> (offset mod 512 = 0 \<and> chunk_of len sz offset = 512) \<and> \<not> bounce \<and> \<not> ok)")
    case False
    then have r: "?loop = Inr (br, buffer, st)"
      using read_body_spec [OF h len off ov, of sz buffer ok br bounce]
      by (subst inode_read_loop.simps) auto
    have "bounce \<or> ok \<longrightarrow> max 0 (min sz (len - offset)) = 0"
      using False by auto
    with r show ?thesis
      by (intro exI [of _ 0] exI [of _ buffer] exI [of _ "[]"]) auto
  next
    case True
    define c where "c = chunk_of len sz offset"
    define st1 where "st1 = st\<lparr>events := events st @ [Disk_Read (file_sector i offset)]\<rparr>"
    define b1 where "b1 = memcpy buffer (nat br) (sector_at (disk st (file_sector i offset)) 0)
          (nat (offset mod 512)) (nat c)"
    define bo1 where "bo1 \<longleftrightarrow> bounce \<or> \<not> (offset mod 512 = 0 \<and> c = 512)"
    have cpos: "0 < c" using True by (simp add: c_def chunk_of_def)
    have cb: "c \<le> sz" "c \<le> len - offset" "c \<le> 512 - offset mod 512"
      unfolding c_def by (rule chunk_of_bounds)+
    have r: "?loop = inode_read_loop st1 (Some p) b1 ok (sz - c) (offset + c) (br + c) bo1"
      using True read_body_spec [OF h len off ov, of sz buffer ok br bounce]
      by (subst inode_read_loop.simps) (auto simp: c_def st1_def b1_def bo1_def)
    have "nat (sz - c) < nat sz" using cpos cb by simp
    moreover have "heap st1 p = Some i" using h by (simp add: st1_def)
    moreover have "0 \<le> offset + c" using off cpos by simp
    moreover have "is_off_t (len - (offset + c))" using ov cb cpos by (simp add: is_off_t_def)
    moreover have "0 \<le> br + c" using br cpos by simp
    ultimately obtain n' b' es' where
      ih: "inode_read_loop st1 (Some p) b1 ok (sz - c) (offset + c) (br + c) bo1 =
             Inr (br + c + n', b', st1\<lparr>events := events st1 @ es'\<rparr>)"
      and n0: "0 \<le> n'" and nle: "n' \<le> max 0 (min (sz - c) (len - (offset + c)))"
      and neq: "bo1 \<or> ok \<longrightarrow> n' = max 0 (min (sz - c) (len - (offset + c)))"
      and ev: "\<forall>e\<in>set es'. \<exists>q. offset + c \<le> q \<and> q < offset + c + n' \<and> e = Disk_Read (file_sector i q)"
      and bf: "\<forall>j. b' j = (if br + c \<le> int j \<and> int j < br + c + n'
                      then file_byte st1 i (offset + c + (int j - (br + c))) else b1 j)"
      using less.hyps [of "sz - c" st1 "offset + c" "br + c" b1 bo1] len by blast
    have fb: "file_byte st1 i = file_byte st i" by (simp add: st1_def file_byte_def fun_eq_iff)
    have b1: "b1 j = (if br \<le> int j \<and> int j < br + c
                      then file_byte st i (offset + (int j - br)) else buffer j)" for j
    proof (cases "br \<le> int j \<and> int j < br + c")
      case True
      have "0 \<le> offset mod 512" by simp
      with True have "nat (offset mod 512) + (j - nat br) = nat (offset mod 512 + (int j - br))"
        using br by arith
      moreover have "0 \<le> int j - br" "int j - br < 512 - offset mod 512" using True cb by simp_all
      ultimately show ?thesis
        using True br cpos file_byte_chunk [of "int j - br" offset st i, OF _ _ off]
        by (simp add: b1_def memcpy_def) linarith
    next
      case False
      then show ?thesis using br cpos by (simp add: b1_def memcpy_def) linarith
    qed
    have 1: "?loop = Inr (br + (c + n'), b',
        st\<lparr>events := events st @ (Disk_Read (file_sector i offset) # es')\<rparr>)"
      using r ih by (simp add: st1_def add.assoc)
    have 2: "c + n' \<le> max 0 (min sz (len - offset))" using nle cpos cb by auto
    have 3: "bounce \<or> ok \<longrightarrow> c + n' = max 0 (min sz (len - offset))"
      using neq cpos cb by (auto simp: bo1_def)
    have 4: "\<forall>e\<in>set (Disk_Read (file_sector i offset) # es').
        \<exists>q. offset \<le> q \<and> q < offset + (c + n') \<and> e = Disk_Read (file_sector i q)"
    proof
      fix e assume "e \<in> set (Disk_Read (file_sector i offset) # es')"
      then consider "e = Disk_Read (file_sector i offset)" | "e \<in> set es'" by auto
      then show "\<exists>q. offset \<le> q \<and> q < offset + (c + n') \<and> e = Disk_Read (file_sector i q)"
      proof cases
        case 1
        then show ?thesis using cpos n0 by (intro exI [of _ offset]) simp
      next
        case 2
        with ev obtain q where "offset + c \<le> q" "q < offset + c + n'" "e = Disk_Read (file_sector i q)"
          by blast
        then show ?thesis using cpos by (intro exI [of _ q]) simp
      qed
    qed
    have 5: "\<forall>j. b' j = (if br \<le> int j \<and> int j < br + (c + n')
                      then file_byte st i (offset + (int j - br)) else buffer j)"
    proof
      fix j
      have "offset + c + (int j - (br + c)) = offset + (int j - br)" by simp
      then show "b' j = (if br \<le> int j \<and> int j < br + (c + n')
                      then file_byte st i (offset + (int j - br)) else buffer j)"
        using bf [rule_format, of j] b1 [of j] fb cpos n0 by auto
    qed
    from 1 2 3 4 5 n0 cpos show ?thesis
      by (intro exI [of _ "c + n'"] exI [of _ b'] exI [of _ "Disk_Read (file_sector i offset) # es'"])
         simp
  qed
qed

lemma file_sector_eq_iff:
  assumes "0 \<le> a" "a < 2 ^ 31" "0 \<le> b" "b < 2 ^ 31"
  shows "file_sector i a = file_sector i b \<longleftrightarrow> a div 512 = b div 512"
proof -
  have "0 \<le> a div 512" "a div 512 < 2 ^ 32" "0 \<le> b div 512" "b div 512 < 2 ^ 32"
    using assms by auto
  then have "take_bit 32 (a div 512) = a div 512" "take_bit 32 (b div 512) = b div 512"
    by (simp_all add: take_bit_int_eq_self)
  then show ?thesis
    by (simp add: file_sector_def word_of_int_eq_iff)
qed

lemma sint_less: "sint (w :: 32 word) < 2 ^ 31"
  using sint_lt [of w] by simp

text \<open>The bytes of the file after one pass of the write loop.\<close>
lemma write_chunk_bytes:
  assumes off: "0 \<le> offset" "offset < 2 ^ 31"
    and c: "0 < c" "c \<le> 512 - offset mod 512"
    and bw: "0 \<le> bw"
    and blk: "\<And>j. j < 512 \<Longrightarrow> blk j =
        (if nat (offset mod 512) \<le> j \<and> j < nat (offset mod 512) + nat c
         then buffer (nat bw + (j - nat (offset mod 512))) else disk st (file_sector i offset) j)"
    and d: "disk st1 = (disk st)(file_sector i offset := sector_at blk 0)"
    and q: "0 \<le> q" "q < 2 ^ 31"
  shows "file_byte st1 i q =
    (if offset \<le> q \<and> q < offset + c then buffer (nat (bw + (q - offset))) else file_byte st i q)"
proof (cases "q div 512 = offset div 512")
  case True
  then have s: "file_sector i q = file_sector i offset" by (simp add: file_sector_def)
  define qm where "qm = q mod 512"
  define om where "om = offset mod 512"
  have m: "0 \<le> qm" "qm < 512" "0 \<le> om" by (simp_all add: qm_def om_def)
  have qo: "q - offset = qm - om"
    using True mult_div_mod_eq [of 512 q] mult_div_mod_eq [of 512 offset]
    unfolding qm_def om_def by linarith
  have c': "c \<le> 512 - om" using c by (simp add: om_def)
  have n: "nat qm < 512" using m by linarith
  have "file_byte st1 i q = blk (nat qm)"
    using n by (simp add: file_byte_def s d sector_at_def qm_def)
  also have "\<dots> = (if nat om \<le> nat qm \<and> nat qm < nat om + nat c
         then buffer (nat bw + (nat qm - nat om))
         else disk st (file_sector i offset) (nat qm))"
    unfolding om_def by (rule blk [OF n])
  also have "\<dots> = (if offset \<le> q \<and> q < offset + c then buffer (nat (bw + (q - offset)))
         else file_byte st i q)"
  proof (cases "offset \<le> q \<and> q < offset + c")
    case True
    then have "nat bw + (nat qm - nat om) = nat (bw + (q - offset))"
      using qo m bw by linarith
    moreover have "nat om \<le> nat qm \<and> nat qm < nat om + nat c"
      using True qo m c(1) by linarith
    ultimately show ?thesis using True by simp
  next
    case False
    then have "\<not> (nat om \<le> nat qm \<and> nat qm < nat om + nat c)"
      using qo m c(1) by linarith
    moreover have "file_byte st i q = disk st (file_sector i offset) (nat qm)"
      by (simp add: file_byte_def s qm_def)
    ultimately show ?thesis using False by auto
  qed
  finally show ?thesis .
next
  case False
  then have s: "file_sector i q \<noteq> file_sector i offset"
    using file_sector_eq_iff [OF q off] by simp
  have "\<not> (offset \<le> q \<and> q < offset + c)"
  proof
    assume a: "offset \<le> q \<and> q < offset + c"
    then have "0 \<le> q - offset" "q - offset < 512 - offset mod 512" using c by simp_all
    from same_sector(1) [OF this] False show False by simp
  qed
  then show ?thesis using s by (auto simp add: file_byte_def d)
qed

lemma write_loop_spec:
  "heap st p = Some i \<Longrightarrow> len = sint (dlength (data i)) \<Longrightarrow>
   0 \<le> offset \<Longrightarrow> is_off_t (len - offset) \<Longrightarrow> 0 \<le> bw \<Longrightarrow>
   \<exists>n st' es.
     inode_write_loop st (Some p) buffer ok sz offset bw bounce = Inr (bw + n, st')
     \<and> heap st' = heap st \<and> free_map st' = free_map st \<and> open_inodes st' = open_inodes st
     \<and> events st' = events st @ es
     \<and> 0 \<le> n \<and> n \<le> max 0 (min sz (len - offset))
     \<and> (bounce \<or> ok \<longrightarrow> n = max 0 (min sz (len - offset)))
     \<and> (\<forall>e\<in>set es. \<exists>q. offset \<le> q \<and> q < offset + n
            \<and> (e = Disk_Read (file_sector i q) \<or> (\<exists>b. e = Disk_Write (file_sector i q) b)))
     \<and> (\<forall>q. 0 \<le> q \<and> q < 2 ^ 31 \<longrightarrow>
            file_byte st' i q = (if offset \<le> q \<and> q < offset + n
                                 then buffer (nat (bw + (q - offset))) else file_byte st i q))"
proof (induction "nat sz" arbitrary: st sz offset bw bounce rule: less_induct)
  case less
  note h = less.prems(1) and len = less.prems(2) and off = less.prems(3)
    and ov = less.prems(4) and bw = less.prems(5)
  let ?loop = "inode_write_loop st (Some p) buffer ok sz offset bw bounce"
  show ?case
  proof (cases "0 < sz \<and> offset < len
      \<and> \<not> (\<not> (offset mod 512 = 0 \<and> chunk_of len sz offset = 512) \<and> \<not> bounce \<and> \<not> ok)")
    case False
    then have r: "?loop = Inr (bw, st)"
      using write_body_spec [OF h len off ov, of sz buffer ok bw bounce]
      by (subst inode_write_loop.simps) auto
    have "bounce \<or> ok \<longrightarrow> max 0 (min sz (len - offset)) = 0"
      using False by auto
    with r show ?thesis
      by (intro exI [of _ 0] exI [of _ st] exI [of _ "[]"]) auto
  next
    case True
    define c where "c = chunk_of len sz offset"
    define full where "full \<longleftrightarrow> offset mod 512 = 0 \<and> c = 512"
    define sec where "sec = file_sector i offset"
    define blk where "blk = (if full then sector_at buffer (nat bw)
       else memcpy (sector_at (disk st sec) 0) (nat (offset mod 512)) buffer (nat bw) (nat c))"
    define st1 where "st1 = (if full then disk_write st sec blk
       else disk_write (snd (disk_read st sec)) sec blk)"
    define bo1 where "bo1 \<longleftrightarrow> bounce \<or> \<not> full"
    define es1 where "es1 = (if full then [] else [Disk_Read sec]) @ [Disk_Write sec (sector_at blk 0)]"
    have cpos: "0 < c" using True by (simp add: c_def chunk_of_def)
    have cb: "c \<le> sz" "c \<le> len - offset" "c \<le> 512 - offset mod 512"
      unfolding c_def by (rule chunk_of_bounds)+
    have olt: "offset < 2 ^ 31" using True sint_less [of "dlength (data i)"] len by simp
    have r: "?loop = inode_write_loop st1 (Some p) buffer ok (sz - c) (offset + c) (bw + c) bo1"
      using True write_body_spec [OF h len off ov, of sz buffer ok bw bounce]
      by (subst inode_write_loop.simps)
         (auto simp: c_def st1_def blk_def bo1_def full_def sec_def disk_read_def)
    have st1: "heap st1 = heap st" "free_map st1 = free_map st" "open_inodes st1 = open_inodes st"
      "events st1 = events st @ es1" "disk st1 = (disk st)(sec := sector_at blk 0)"
      by (simp_all add: st1_def es1_def disk_write_def disk_read_def)
    have blk: "blk j = (if nat (offset mod 512) \<le> j \<and> j < nat (offset mod 512) + nat c
         then buffer (nat bw + (j - nat (offset mod 512))) else disk st (file_sector i offset) j)"
      if "j < 512" for j
      using that by (auto simp: blk_def full_def sector_at_def memcpy_def sec_def)
    have fb1: "file_byte st1 i q =
      (if offset \<le> q \<and> q < offset + c then buffer (nat (bw + (q - offset))) else file_byte st i q)"
      if "0 \<le> q" "q < 2 ^ 31" for q
      using write_chunk_bytes [OF off olt cpos cb(3) bw blk _ that, of st1] st1(5)
      by (simp add: sec_def)
    have "nat (sz - c) < nat sz" using cpos cb by simp
    moreover have "heap st1 p = Some i" using h st1 by simp
    moreover have "0 \<le> offset + c" using off cpos by simp
    moreover have "is_off_t (len - (offset + c))" using ov cb cpos by (simp add: is_off_t_def)
    moreover have "0 \<le> bw + c" using bw cpos by simp
    ultimately obtain n' st' es' where
      ih: "inode_write_loop st1 (Some p) buffer ok (sz - c) (offset + c) (bw + c) bo1 =
             Inr (bw + c + n', st')"
      and fr: "heap st' = heap st1" "free_map st' = free_map st1" "open_inodes st' = open_inodes st1"
        "events st' = events st1 @ es'"
      and n0: "0 \<le> n'" and nle: "n' \<le> max 0 (min (sz - c) (len - (offset + c)))"
      and neq: "bo1 \<or> ok \<longrightarrow> n' = max 0 (min (sz - c) (len - (offset + c)))"
      and ev: "\<forall>e\<in>set es'. \<exists>q. offset + c \<le> q \<and> q < offset + c + n'
            \<and> (e = Disk_Read (file_sector i q) \<or> (\<exists>b. e = Disk_Write (file_sector i q) b))"
      and bf: "\<forall>q. 0 \<le> q \<and> q < 2 ^ 31 \<longrightarrow>
            file_byte st' i q = (if offset + c \<le> q \<and> q < offset + c + n'
                                 then buffer (nat (bw + c + (q - (offset + c)))) else file_byte st1 i q)"
      using less.hyps [of "sz - c" st1 "offset + c" "bw + c" bo1] len by blast
    have 1: "?loop = Inr (bw + (c + n'), st')" using r ih by (simp add: add.assoc)
    have 2: "c + n' \<le> max 0 (min sz (len - offset))" using nle cpos cb by auto
    have 3: "bounce \<or> ok \<longrightarrow> c + n' = max 0 (min sz (len - offset))"
      using neq cpos cb by (auto simp: bo1_def)
    have 4: "\<forall>e\<in>set (es1 @ es'). \<exists>q. offset \<le> q \<and> q < offset + (c + n')
            \<and> (e = Disk_Read (file_sector i q) \<or> (\<exists>b. e = Disk_Write (file_sector i q) b))"
    proof
      fix e assume "e \<in> set (es1 @ es')"
      then consider "e \<in> set es1" | "e \<in> set es'" by auto
      then show "\<exists>q. offset \<le> q \<and> q < offset + (c + n')
            \<and> (e = Disk_Read (file_sector i q) \<or> (\<exists>b. e = Disk_Write (file_sector i q) b))"
      proof cases
        case 1
        then have "e = Disk_Read (file_sector i offset) \<or> (\<exists>b. e = Disk_Write (file_sector i offset) b)"
          by (auto simp: es1_def sec_def split: if_splits)
        then show ?thesis using cpos n0 by (intro exI [of _ offset]) simp
      next
        case 2
        with ev obtain q where "offset + c \<le> q" "q < offset + c + n'"
          "e = Disk_Read (file_sector i q) \<or> (\<exists>b. e = Disk_Write (file_sector i q) b)"
          by blast
        then show ?thesis using cpos by (intro exI [of _ q]) simp
      qed
    qed
    have 5: "\<forall>q. 0 \<le> q \<and> q < 2 ^ 31 \<longrightarrow>
            file_byte st' i q = (if offset \<le> q \<and> q < offset + (c + n')
                                 then buffer (nat (bw + (q - offset))) else file_byte st i q)"
    proof (intro allI impI)
      fix q :: int assume q: "0 \<le> q \<and> q < 2 ^ 31"
      have "bw + c + (q - (offset + c)) = bw + (q - offset)" by simp
      then show "file_byte st' i q = (if offset \<le> q \<and> q < offset + (c + n')
                                 then buffer (nat (bw + (q - offset))) else file_byte st i q)"
        using bf [rule_format, OF q] fb1 [of q] q cpos n0 by auto
    qed
    from 1 2 3 4 5 n0 cpos fr st1 show ?thesis
      by (intro exI [of _ "c + n'"] exI [of _ st'] exI [of _ "es1 @ es'"]) simp
  qed
qed

lemma in_file_sector:
  assumes "0 \<le> q" and "q < len" and "len < 2 ^ 31"
  shows "in_sectors (start (data i)) (bytes_to_sectors len) (file_sector i q)"
proof -
  have a: "0 \<le> q div 512" "q div 512 < 2 ^ 32" using assms by auto
  have b: "q div 512 < - ((- len) div 512)" using assms(2) by linarith
  have "(512 * (- len)) div 512 \<le> (- len) div 512"
    using assms by (intro zdiv_mono1) simp_all
  then have c: "- ((- len) div 512) < 2 ^ 32" using assms by simp
  have "unat (word_of_int (q div 512) :: 32 word) = nat (q div 512)"
    using a by (simp add: unat_eq_nat_uint uint_word_of_int take_bit_int_eq_self take_bit_eq_mod [symmetric])
  moreover have "(- ((- len) div 512)) mod 2 ^ 32 = - ((- len) div 512)"
    using b c a by (intro mod_pos_pos_trivial) linarith+
  ultimately show ?thesis
    using a b by (simp add: in_sectors_def file_sector_def bytes_to_sectors_def DIV_ROUND_UP_def
        DISK_SECTOR_SIZE_def)
qed

text \<open>The definitions that a run of the loops on a given input unfolds.\<close>
lemmas eval_defs = inode_read_at_def inode_write_at_def inode_read_loop.simps
  inode_write_loop.simps read_body_def write_body_def byte_to_sector_def inode_length_def
  example_fs_def example_inode_def Let_def DISK_SECTOR_SIZE_def c_div_def c_mod_def is_off_t_def
  disk_read_def disk_write_def

lemma unat_minus_1_32: "unat (- 1 :: 32 word) = 4294967295"
  by (simp add: unsigned_minus_1_eq_mask mask_eq_exp_minus_1)

section \<open>How many bytes a call transfers\<close>

text \<open>
  C5, for offsets that are not negative. Let \<open>len\<close> be the length in the handle's cached
  descriptor, \<open>sz \<ge> 0\<close> the requested size and \<open>offset \<ge> 0\<close>, with \<open>len - offset\<close>
  in the range of \<^verbatim>\<open>off_t\<close> (as it is whenever \<open>len \<ge> 0\<close> and the offset is an \<^verbatim>\<open>off_t\<close>).
  Then \<^verbatim>\<open>inode_read_at\<close> and \<^verbatim>\<open>inode_write_at\<close> both return, with a count \<open>n\<close> between 0
  and \<open>min sz (max 0 (len - offset))\<close>; the count is that minimum when the allocation of
  the bounce buffer succeeds, and a count below \<open>sz\<close> means that the file ends before
  \<open>offset + sz\<close> or that the allocation failed. A failed allocation does not fail the call.
\<close>
theorem transfer_count:
  assumes h: "heap st p = Some i" and len: "len = sint (dlength (data i))"
    and sz: "0 \<le> sz" and off: "0 \<le> offset" and ov: "is_off_t (len - offset)"
  shows "(\<exists>n b st'. inode_read_at st (Some p) buffer malloc_ok sz offset = Inr (n, b, st')
            \<and> 0 \<le> n \<and> n \<le> min sz (max 0 (len - offset))
            \<and> (malloc_ok \<longrightarrow> n = min sz (max 0 (len - offset)))
            \<and> (n < sz \<longrightarrow> len - offset < sz \<or> \<not> malloc_ok))
       \<and> (\<exists>n st'. inode_write_at st (Some p) buffer malloc_ok sz offset = Inr (n, st')
            \<and> 0 \<le> n \<and> n \<le> min sz (max 0 (len - offset))
            \<and> (malloc_ok \<longrightarrow> n = min sz (max 0 (len - offset)))
            \<and> (n < sz \<longrightarrow> len - offset < sz \<or> \<not> malloc_ok))"
proof -
  have m: "max 0 (min sz (len - offset)) = min sz (max 0 (len - offset))" using sz by auto
  from read_loop_spec [OF h len off ov, of 0 buffer malloc_ok sz False]
  obtain n b es where
    "inode_read_at st (Some p) buffer malloc_ok sz offset = Inr (n, b, st\<lparr>events := events st @ es\<rparr>)"
    "0 \<le> n" "n \<le> min sz (max 0 (len - offset))" "malloc_ok \<longrightarrow> n = min sz (max 0 (len - offset))"
    unfolding inode_read_at_def m by auto
  moreover
  from write_loop_spec [OF h len off ov, of 0 buffer malloc_ok sz False]
  obtain n' st' where
    "inode_write_at st (Some p) buffer malloc_ok sz offset = Inr (n', st')"
    "0 \<le> n'" "n' \<le> min sz (max 0 (len - offset))" "malloc_ok \<longrightarrow> n' = min sz (max 0 (len - offset))"
    unfolding inode_write_at_def m by auto
  ultimately show ?thesis by auto
qed

theorem transfer_count_witness:
  "(\<exists>n b st'. inode_read_at example_fs (Some 1) zeros True 600 500 = Inr (n, b, st')
            \<and> 0 \<le> n \<and> n \<le> min 600 (max 0 (1000 - 500))
            \<and> (True \<longrightarrow> n = min 600 (max 0 (1000 - 500)))
            \<and> (n < 600 \<longrightarrow> 1000 - 500 < (600::int) \<or> \<not> True))
       \<and> (\<exists>n st'. inode_write_at example_fs (Some 1) zeros True 600 500 = Inr (n, st')
            \<and> 0 \<le> n \<and> n \<le> min 600 (max 0 (1000 - 500))
            \<and> (True \<longrightarrow> n = min 600 (max 0 (1000 - 500)))
            \<and> (n < 600 \<longrightarrow> 1000 - 500 < (600::int) \<or> \<not> True))"
  by (rule transfer_count [where i = example_inode])
     (simp_all add: example_fs_def example_inode_def is_off_t_def)

text \<open>C5 at a negative offset, where the count should be \<open>min sz (max 0 (len - offset))\<close>,
  1 for one byte of the example file. Neither function checks the sign of the offset, and
  the calls have no defined result: the subtraction \<^verbatim>\<open>inode_length (inode) - offset\<close>
  overflows at the least offset, and at offset \<open>- 1\<close> the remainder
  \<^verbatim>\<open>offset % DISK_SECTOR_SIZE\<close> is \<open>- 1\<close>, so \<^verbatim>\<open>memcpy\<close> is handed the address before the bounce
  buffer.\<close>
theorem transfer_count_negative_offset:
  "inode_read_at example_fs (Some 1) zeros True 1 (- 2147483648) = Inl Signed_Overflow
   \<and> inode_write_at example_fs (Some 1) zeros True 1 (- 2147483648) = Inl Signed_Overflow
   \<and> inode_read_at example_fs (Some 1) zeros True 1 (- 1) = Inl Out_Of_Bounds
   \<and> inode_write_at example_fs (Some 1) zeros True 1 (- 1) = Inl Out_Of_Bounds"
  by (simp add: eval_defs)

section \<open>Which sectors a call touches\<close>

text \<open>
  C10, for offsets that are not negative. Every \<^verbatim>\<open>disk_read\<close> made by \<^verbatim>\<open>inode_read_at\<close>, and
  every \<^verbatim>\<open>disk_read\<close> and \<^verbatim>\<open>disk_write\<close> made by \<^verbatim>\<open>inode_write_at\<close>, is on one of the
  \<open>bytes_to_sectors len\<close> sectors that begin at the \<open>start\<close> of the handle's cached
  descriptor, whether or not the bounce buffer can be allocated. \<^verbatim>\<open>byte_to_sector\<close> returns
  the sentinel \<open>- 1\<close> for every position at or past the length, and a sector of the file
  for every position from 0 up to the length.
\<close>
theorem transfer_stays_in_file:
  assumes h: "heap st p = Some i" and len: "len = sint (dlength (data i))"
    and off: "0 \<le> offset" and ov: "is_off_t (len - offset)"
  shows "(\<exists>n b st' es. inode_read_at st (Some p) buffer malloc_ok sz offset = Inr (n, b, st')
            \<and> events st' = events st @ es
            \<and> (\<forall>e\<in>set es. \<exists>s. e = Disk_Read s
                   \<and> in_sectors (start (data i)) (bytes_to_sectors len) s))
       \<and> (\<exists>n st' es. inode_write_at st (Some p) buffer malloc_ok sz offset = Inr (n, st')
            \<and> events st' = events st @ es
            \<and> (\<forall>e\<in>set es. \<exists>s. (e = Disk_Read s \<or> (\<exists>b. e = Disk_Write s b))
                   \<and> in_sectors (start (data i)) (bytes_to_sectors len) s))
       \<and> (\<forall>pos. len \<le> pos \<longrightarrow> byte_to_sector st (Some p) pos = Inr (- 1))
       \<and> (\<forall>pos. 0 \<le> pos \<and> pos < len \<longrightarrow>
             (\<exists>s. byte_to_sector st (Some p) pos = Inr s
                \<and> in_sectors (start (data i)) (bytes_to_sectors len) s))"
proof -
  have l31: "len < 2 ^ 31" using sint_less [of "dlength (data i)"] len by simp
  have inside: "in_sectors (start (data i)) (bytes_to_sectors len) (file_sector i q)"
    if "offset \<le> q" "q < offset + n" "n \<le> max 0 (min sz (len - offset))" for q n
    using that off by (intro in_file_sector [OF _ _ l31]) auto
  from read_loop_spec [OF h len off ov, of 0 buffer malloc_ok sz False]
  obtain n b es where r:
    "inode_read_at st (Some p) buffer malloc_ok sz offset = Inr (n, b, st\<lparr>events := events st @ es\<rparr>)"
    "n \<le> max 0 (min sz (len - offset))"
    "\<forall>e\<in>set es. \<exists>q. offset \<le> q \<and> q < offset + n \<and> e = Disk_Read (file_sector i q)"
    unfolding inode_read_at_def by auto
  have 1: "\<exists>n b st' es. inode_read_at st (Some p) buffer malloc_ok sz offset = Inr (n, b, st')
            \<and> events st' = events st @ es
            \<and> (\<forall>e\<in>set es. \<exists>s. e = Disk_Read s
                   \<and> in_sectors (start (data i)) (bytes_to_sectors len) s)"
    using r inside by (intro exI [of _ n] exI [of _ b] exI [of _ es]
        exI [of _ "st\<lparr>events := events st @ es\<rparr>"]) fastforce
  from write_loop_spec [OF h len off ov, of 0 buffer malloc_ok sz False]
  obtain n' st' es' where w:
    "inode_write_at st (Some p) buffer malloc_ok sz offset = Inr (n', st')"
    "events st' = events st @ es'"
    "n' \<le> max 0 (min sz (len - offset))"
    "\<forall>e\<in>set es'. \<exists>q. offset \<le> q \<and> q < offset + n'
        \<and> (e = Disk_Read (file_sector i q) \<or> (\<exists>b. e = Disk_Write (file_sector i q) b))"
    unfolding inode_write_at_def by auto
  have 2: "\<exists>n st' es. inode_write_at st (Some p) buffer malloc_ok sz offset = Inr (n, st')
            \<and> events st' = events st @ es
            \<and> (\<forall>e\<in>set es. \<exists>s. (e = Disk_Read s \<or> (\<exists>b. e = Disk_Write s b))
                   \<and> in_sectors (start (data i)) (bytes_to_sectors len) s)"
    using w inside by (intro exI [of _ n'] exI [of _ st'] exI [of _ es']) fastforce
  have 3: "\<forall>pos. len \<le> pos \<longrightarrow> byte_to_sector st (Some p) pos = Inr (- 1)"
    using h len by (simp add: byte_to_sector_def)
  have 4: "\<forall>pos. 0 \<le> pos \<and> pos < len \<longrightarrow>
             (\<exists>s. byte_to_sector st (Some p) pos = Inr s
                \<and> in_sectors (start (data i)) (bytes_to_sectors len) s)"
    using h len in_file_sector [OF _ _ l31, of _ i] by (simp add: byte_to_sector_live)
  from 1 2 3 4 show ?thesis by blast
qed

theorem transfer_stays_in_file_witness:
  "(\<exists>n b st' es. inode_read_at example_fs (Some 1) zeros True 600 500 = Inr (n, b, st')
            \<and> events st' = events example_fs @ es
            \<and> (\<forall>e\<in>set es. \<exists>s. e = Disk_Read s
                   \<and> in_sectors (start (data example_inode)) (bytes_to_sectors 1000) s))
       \<and> (\<exists>n st' es. inode_write_at example_fs (Some 1) zeros True 600 500 = Inr (n, st')
            \<and> events st' = events example_fs @ es
            \<and> (\<forall>e\<in>set es. \<exists>s. (e = Disk_Read s \<or> (\<exists>b. e = Disk_Write s b))
                   \<and> in_sectors (start (data example_inode)) (bytes_to_sectors 1000) s))
       \<and> byte_to_sector example_fs (Some 1) 1000 = Inr (- 1)
       \<and> (\<exists>s. byte_to_sector example_fs (Some 1) 999 = Inr s
              \<and> in_sectors (start (data example_inode)) (bytes_to_sectors 1000) s)"
proof -
  have h: "heap example_fs 1 = Some example_inode" by (simp add: example_fs_def)
  have l: "1000 = sint (dlength (data example_inode))" by (simp add: example_inode_def)
  have o: "(0::int) \<le> 500" by simp
  have v: "is_off_t (1000 - 500)" by (simp add: is_off_t_def)
  note t = transfer_stays_in_file [OF h l o v, of zeros True 600]
  from t have c: "\<forall>pos. 1000 \<le> pos \<longrightarrow> byte_to_sector example_fs (Some 1) pos = Inr (- 1)"
    and d: "\<forall>pos. 0 \<le> pos \<and> pos < 1000 \<longrightarrow>
             (\<exists>s. byte_to_sector example_fs (Some 1) pos = Inr s
                \<and> in_sectors (start (data example_inode)) (bytes_to_sectors 1000) s)"
    by blast+
  from c have c': "byte_to_sector example_fs (Some 1) 1000 = Inr (- 1)" by simp
  from d have d': "\<exists>s. byte_to_sector example_fs (Some 1) 999 = Inr s
              \<and> in_sectors (start (data example_inode)) (bytes_to_sectors 1000) s" by simp
  from t c' d' show ?thesis by blast
qed

text \<open>C10 at a negative offset. \<^verbatim>\<open>byte_to_sector\<close> is to return \<open>- 1\<close> when the inode has no data
  for the byte at the position; it compares the position with the length and not with 0.
  For a read of 512 bytes at offset \<open>- 512\<close> of the example file, whose sectors are 10 and
  11, it yields \<open>start + (- 512) / 512\<close>, the remainder is 0, and the full sector 9 is read
  into the caller's buffer. The write at that offset overwrites sector 9.\<close>
theorem read_before_the_file:
  "(case inode_read_at example_fs (Some 1) zeros True 512 (- 512) of
      Inl f \<Rightarrow> [] | Inr (n, b, st') \<Rightarrow> events st') = [Disk_Read 9]
   \<and> (case inode_write_at example_fs (Some 1) (\<lambda>j. 7) True 512 (- 512) of
      Inl f \<Rightarrow> None | Inr (n, st') \<Rightarrow> Some (n, disk st' 9 0)) = Some (512, 7)
   \<and> \<not> in_sectors (start (data example_inode)) (bytes_to_sectors 1000) 9"
  by (simp add: eval_defs in_sectors_def bytes_to_sectors_def DIV_ROUND_UP_def
      unat_minus_1_32 sector_at_def)

section \<open>A partial sector in the write loop\<close>

text \<open>
  C4, as the code has it, for offsets that are not negative. In a pass of the write loop
  that writes \<open>c\<close> bytes and is not the full-sector case, with the bounce buffer there or
  its allocation succeeding, the sector is read from the disk into the bounce buffer, the
  \<open>c\<close> bytes are copied over it from position \<open>offset mod 512\<close>, and the whole buffer is
  written back. The condition under which the code reads,
  \<^verbatim>\<open>sector_ofs > 0 || chunk_size < sector_left\<close>, holds in every such pass: the other branch,
  the \<^verbatim>\<open>memset\<close>, needs a chunk from the start of the sector to its end, which is the
  full-sector case.
\<close>
theorem partial_sector_write_reads_first:
  assumes h: "heap st p = Some i" and len: "len = sint (dlength (data i))"
    and off: "0 \<le> offset" and ov: "is_off_t (len - offset)"
    and sz: "0 < sz" and lt: "offset < len"
    and c: "c = min sz (min (len - offset) (512 - offset mod 512))"
    and partial: "\<not> (offset mod 512 = 0 \<and> c = 512)"
    and alloc: "bounce \<or> malloc_ok"
    and sec: "sec = start (data i) + word_of_int (offset div 512)"
    and blk: "blk = sector_at (memcpy (sector_at (disk st sec) 0) (nat (offset mod 512))
                      buffer (nat bytes_written) (nat c)) 0"
  shows "write_body st (Some p) buffer malloc_ok sz offset bytes_written bounce =
           Inr (Continue (st\<lparr>disk := (disk st)(sec := blk),
                             events := events st @ [Disk_Read sec, Disk_Write sec blk]\<rparr>,
                          c, True))
         \<and> (0 < offset mod 512 \<or> c < 512 - offset mod 512)"
proof -
  have c': "c = chunk_of len sz offset" by (simp add: c chunk_of_def)
  have "c \<le> 512 - offset mod 512" by (simp add: c)
  moreover have "0 \<le> offset mod 512" by simp
  ultimately have 2: "0 < offset mod 512 \<or> c < 512 - offset mod 512"
    using partial by linarith
  have 1: "write_body st (Some p) buffer malloc_ok sz offset bytes_written bounce =
           Inr (Continue (st\<lparr>disk := (disk st)(sec := blk),
                             events := events st @ [Disk_Read sec, Disk_Write sec blk]\<rparr>,
                          c, True))"
    using write_body_spec [OF h len off ov sz, of buffer malloc_ok bytes_written bounce]
      lt partial alloc
    by (auto simp: c' [symmetric] sec blk file_sector_def disk_read_def disk_write_def)
  from 1 2 show ?thesis ..
qed

theorem partial_sector_write_reads_first_witness:
  "write_body example_fs_sevens (Some 1) zeros True 488 512 0 False =
     Inr (Continue (example_fs_sevens\<lparr>disk := (disk example_fs_sevens)
              (11 := sector_at (memcpy (sector_at (disk example_fs_sevens 11) 0) (nat (512 mod 512))
                      zeros (nat 0) (nat 488)) 0),
            events := events example_fs_sevens @ [Disk_Read 11, Disk_Write 11
              (sector_at (memcpy (sector_at (disk example_fs_sevens 11) 0) (nat (512 mod 512))
                      zeros (nat 0) (nat 488)) 0)]\<rparr>, 488, True))
   \<and> (0 < (512::int) mod 512 \<or> (488::int) < 512 - 512 mod 512)"
  by (rule partial_sector_write_reads_first [where i = example_inode and len = 1000])
     (simp_all add: example_fs_sevens_def example_fs_def example_inode_def is_off_t_def)

text \<open>The claim C4 as stated has the buffer zero-filled when the write starts at the sector's
  first byte and reaches the end of the file's data in the sector. The second sector of the
  example file holds the bytes 512 to 999; a write of these 488 bytes has remainder 0 and
  reaches the end of the file, and the pass reads sector 11 first: after it the sector
  holds the new byte at position 0 and the old byte 7 at position 500.\<close>
theorem write_to_end_of_file_reads_sector:
  "c_mod 512 DISK_SECTOR_SIZE = 0 \<and> (488 :: int) = 1000 - 512
   \<and> (case write_body example_fs_sevens (Some 1) zeros True 488 512 0 False of
        Inr (Continue (st', c, b)) \<Rightarrow> Some (c, hd (events st'), disk st' 11 0, disk st' 11 500)
      | _ \<Rightarrow> None) = Some (488, Disk_Read 11, 0, 7)"
  by (simp add: eval_defs example_fs_sevens_def sector_at_def memcpy_def zeros_def)

section \<open>Writing, then reading\<close>

text \<open>
  C1, for offsets that are not negative and bounce buffers that can be allocated. Let the
  bytes \<open>bs\<close> fit in the file from \<open>offset \<ge> 0\<close> on: \<open>offset + length bs \<le> len\<close>, with
  \<open>len\<close> the length in the handle's cached descriptor. Then \<^verbatim>\<open>inode_write_at\<close> of \<open>bs\<close> at
  \<open>offset\<close> returns \<open>length bs\<close>, and \<^verbatim>\<open>inode_read_at\<close> of as many bytes at \<open>offset\<close> in the
  state it leaves returns \<open>length bs\<close> and leaves \<open>bs\<close> at the front of the buffer. The range
  may lie in one sector or cross any number of sector boundaries.
\<close>
theorem write_then_read:
  assumes h: "heap st p = Some i" and len: "len = sint (dlength (data i))"
    and off: "0 \<le> offset" and fit: "offset + int (length bs) \<le> len"
  shows "\<exists>st'. inode_write_at st (Some p) ((!) bs) True (int (length bs)) offset =
               Inr (int (length bs), st')
           \<and> (\<exists>b st''. inode_read_at st' (Some p) buf True (int (length bs)) offset =
                          Inr (int (length bs), b, st'')
                 \<and> map b [0..<length bs] = bs)"
proof -
  define sz where "sz = int (length bs)"
  have l31: "len < 2 ^ 31" using sint_less [of "dlength (data i)"] len by simp
  have ov: "is_off_t (len - offset)" using off fit l31 by (simp add: is_off_t_def)
  have m: "max 0 (min sz (len - offset)) = sz" using fit by (simp add: sz_def)
  from write_loop_spec [OF h len off ov, of 0 "(!) bs" True sz False]
  obtain st' where
    w: "inode_write_at st (Some p) ((!) bs) True sz offset = Inr (sz, st')"
    and hp: "heap st' = heap st"
    and fb: "\<forall>q. 0 \<le> q \<and> q < 2 ^ 31 \<longrightarrow>
            file_byte st' i q = (if offset \<le> q \<and> q < offset + sz
                                 then bs ! nat (q - offset) else file_byte st i q)"
    unfolding inode_write_at_def m by auto
  have h': "heap st' p = Some i" using h hp by simp
  from read_loop_spec [OF h' len off ov, of 0 buf True sz False]
  obtain b es where
    r: "inode_read_at st' (Some p) buf True sz offset = Inr (sz, b, st'\<lparr>events := events st' @ es\<rparr>)"
    and bf: "\<forall>j. b j = (if int j < sz then file_byte st' i (offset + int j) else buf j)"
    unfolding inode_read_at_def m by auto
  have "b j = bs ! j" if "j < length bs" for j
  proof -
    have "0 \<le> offset + int j" "offset + int j < 2 ^ 31" "offset + int j < offset + sz"
      using that off fit l31 by (simp_all add: sz_def)
    then show ?thesis using bf fb that off by (simp add: sz_def)
  qed
  then have "map b [0..<length bs] = bs"
    by (intro nth_equalityI) simp_all
  with w r show ?thesis unfolding sz_def by blast
qed

text \<open>Four bytes across the boundary between the two sectors of the example file, and four
  bytes inside its first sector.\<close>
theorem write_then_read_witness:
  "(\<exists>st'. inode_write_at example_fs (Some 1) ((!) [1, 2, 3, 4]) True
              (int (length [1, 2, 3, 4 :: byte])) 510 = Inr (int (length [1, 2, 3, 4 :: byte]), st')
           \<and> (\<exists>b st''. inode_read_at st' (Some 1) zeros True
                          (int (length [1, 2, 3, 4 :: byte])) 510 =
                          Inr (int (length [1, 2, 3, 4 :: byte]), b, st'')
                 \<and> map b [0..<length [1, 2, 3, 4 :: byte]] = [1, 2, 3, 4]))
   \<and> (\<exists>st'. inode_write_at example_fs (Some 1) ((!) [1, 2, 3, 4]) True
              (int (length [1, 2, 3, 4 :: byte])) 100 = Inr (int (length [1, 2, 3, 4 :: byte]), st')
           \<and> (\<exists>b st''. inode_read_at st' (Some 1) zeros True
                          (int (length [1, 2, 3, 4 :: byte])) 100 =
                          Inr (int (length [1, 2, 3, 4 :: byte]), b, st'')
                 \<and> map b [0..<length [1, 2, 3, 4 :: byte]] = [1, 2, 3, 4]))"
  by (intro conjI; rule write_then_read [where i = example_inode and len = 1000];
      simp add: example_fs_def example_inode_def)

text \<open>The claim C1 as stated has no condition on the bounce buffer or on the sign of the
  offset. When \<^verbatim>\<open>malloc\<close> fails in the write of three bytes at 510, the write returns 0 and
  changes nothing, and the read that follows returns the zeros of the disk. A write of one
  byte at offset \<open>- 1\<close> satisfies \<open>o + len(b) \<le> length\<close> and hands \<^verbatim>\<open>memcpy\<close> the address
  before the bounce buffer.\<close>
theorem write_then_read_without_bounce:
  "inode_write_at example_fs (Some 1) ((!) [1, 2, 3]) False 3 510 = Inr (0, example_fs)
   \<and> (case inode_read_at example_fs (Some 1) zeros True 3 510 of
         Inl f \<Rightarrow> None | Inr (n, b, st') \<Rightarrow> Some (n, map b [0..<3])) = Some (3, [0, 0, 0])
   \<and> inode_write_at example_fs (Some 1) ((!) [1]) True 1 (- 1) = Inl Out_Of_Bounds"
  by (simp add: eval_defs sector_at_def memcpy_def zeros_def upt_rec)

section \<open>Opening\<close>

text \<open>The two parts of \<^verbatim>\<open>inode_open\<close> in one.\<close>
lemma inode_open_whole:
  "inode_open st m sec =
     (case find_open st (open_inodes st) sec of
        Inl f \<Rightarrow> Inl f
      | Inr (Some p) \<Rightarrow> inode_reopen st (Some p)
      | Inr None \<Rightarrow>
          (case m of
             None \<Rightarrow> Inr (None, st)
           | Some p \<Rightarrow>
               let st1 = st\<lparr>open_inodes := p # open_inodes st\<rparr>;
                   (blk, st2) = disk_read st1 sec;
                   i = \<lparr>sector = sec, open_cnt = 1, removed = False,
                        data = inode_disk_of_bytes blk,
                        inode_lock = Lock_Free, dir_lock = Lock_Uninitialised\<rparr>
               in Inr (Some p, st2\<lparr>heap := (heap st2)(p \<mapsto> i)\<rparr>)))"
  by (simp add: inode_open_def inode_open_locked_def inode_open_unlocked_def Let_def
      split: sum.splits option.splits prod.splits)

text \<open>What \<^verbatim>\<open>inode_open\<close> returns when no open inode has the sector, and when one has.\<close>
lemma inode_open_new:
  assumes "find_open st (open_inodes st) sec = Inr None"
  shows "inode_open st (Some p) sec =
    Inr (Some p,
         st\<lparr>open_inodes := p # open_inodes st,
            events := events st @ [Disk_Read sec],
            heap := (heap st)(p \<mapsto>
              \<lparr>sector = sec, open_cnt = 1, removed = False,
               data = inode_disk_of_bytes (sector_at (disk st sec) 0),
               inode_lock = Lock_Free, dir_lock = Lock_Uninitialised\<rparr>)\<rparr>)"
  using assms by (simp add: inode_open_whole disk_read_def)

lemma inode_open_reuse:
  assumes "find_open st (open_inodes st) sec = Inr (Some q)" and "heap st q = Some j"
    and "is_off_t (open_cnt j + 1)"
  shows "inode_open st m sec =
    Inr (Some q, st\<lparr>heap := (heap st)(q \<mapsto> j\<lparr>open_cnt := open_cnt j + 1\<rparr>)\<rparr>)"
  using assms by (simp add: inode_open_whole inode_reopen_def)

section \<open>The directory lock\<close>

text \<open>
  C7, as the code has it. \<^verbatim>\<open>inode_open\<close> never initialises \<^verbatim>\<open>dir_lock\<close>. When no open inode
  has the sector, the inode it creates has an initialised \<^verbatim>\<open>inode_lock\<close> and a \<^verbatim>\<open>dir_lock\<close>
  whose storage is as \<^verbatim>\<open>malloc\<close> left it; when one has, that inode is returned with one more
  opener and its \<^verbatim>\<open>dir_lock\<close> as it was. The lock is initialised by \<^verbatim>\<open>inode_dir_init\<close>, a
  separate function that the caller has to call, and that initialises it again on every
  call.
\<close>
theorem open_leaves_dir_lock:
  "(find_open st (open_inodes st) sec = Inr None \<longrightarrow>
      inode_open st (Some p) sec =
        Inr (Some p,
             st\<lparr>open_inodes := p # open_inodes st,
                events := events st @ [Disk_Read sec],
                heap := (heap st)(p \<mapsto>
                  \<lparr>sector = sec, open_cnt = 1, removed = False,
                   data = inode_disk_of_bytes (sector_at (disk st sec) 0),
                   inode_lock = Lock_Free, dir_lock = Lock_Uninitialised\<rparr>)\<rparr>))
   \<and> (find_open st (open_inodes st) sec = Inr (Some q) \<and> heap st q = Some j
        \<and> is_off_t (open_cnt j + 1) \<longrightarrow>
      inode_open st m sec =
        Inr (Some q, st\<lparr>heap := (heap st)(q \<mapsto> j\<lparr>open_cnt := open_cnt j + 1\<rparr>)\<rparr>)
      \<and> dir_lock (j\<lparr>open_cnt := open_cnt j + 1\<rparr>) = dir_lock j)
   \<and> (heap st q = Some j \<longrightarrow>
      inode_dir_init st (Some q) = Inr (st\<lparr>heap := (heap st)(q \<mapsto> j\<lparr>dir_lock := Lock_Free\<rparr>)\<rparr>))"
  using inode_open_new [of st sec p] inode_open_reuse [of st sec q j m]
  by (simp add: inode_dir_init_def)

theorem open_leaves_dir_lock_witness:
  "inode_open example_fs (Some 2) 7 =
        Inr (Some 2,
             example_fs\<lparr>open_inodes := 2 # open_inodes example_fs,
                events := events example_fs @ [Disk_Read 7],
                heap := (heap example_fs)(2 \<mapsto>
                  \<lparr>sector = 7, open_cnt = 1, removed = False,
                   data = inode_disk_of_bytes (sector_at (disk example_fs 7) 0),
                   inode_lock = Lock_Free, dir_lock = Lock_Uninitialised\<rparr>)\<rparr>)
   \<and> inode_open example_fs None 5 =
        Inr (Some 1, example_fs\<lparr>heap := (heap example_fs)(1 \<mapsto>
               example_inode\<lparr>open_cnt := open_cnt example_inode + 1\<rparr>)\<rparr>)
   \<and> dir_lock (example_inode\<lparr>open_cnt := open_cnt example_inode + 1\<rparr>) = dir_lock example_inode
   \<and> inode_dir_init example_fs (Some 1) =
        Inr (example_fs\<lparr>heap := (heap example_fs)(1 \<mapsto> example_inode\<lparr>dir_lock := Lock_Free\<rparr>)\<rparr>)"
  using open_leaves_dir_lock [of example_fs 7 2 1 example_inode None]
        open_leaves_dir_lock [of example_fs 5 2 1 example_inode None]
  by (simp add: example_fs_def example_inode_def is_off_t_def)

text \<open>The claim C7 as stated has the lock initialised before \<^verbatim>\<open>inode_open\<close> returns the handle.
  Opening sector 7 of the example file system creates an inode whose \<^verbatim>\<open>dir_lock\<close> is not
  initialised; opening sector 5 returns the inode that is open, whose \<^verbatim>\<open>dir_lock\<close> nobody
  has initialised, as it is.\<close>
theorem open_returns_uninitialised_dir_lock:
  "(case inode_open example_fs (Some 2) 7 of
      Inr (Some p, st') \<Rightarrow> map_option dir_lock (heap st' p) | _ \<Rightarrow> None)
     = Some Lock_Uninitialised
   \<and> (case inode_open example_fs None 5 of
      Inr (Some p, st') \<Rightarrow> map_option dir_lock (heap st' p) | _ \<Rightarrow> None)
     = Some Lock_Uninitialised"
  by (simp add: inode_open_whole inode_reopen_def example_fs_def example_inode_def disk_read_def
      is_off_t_def)

section \<open>Removal\<close>

text \<open>The loops look at an inode's descriptor and at nothing else in the heap, and leave the
  heap as it is.\<close>

lemma same_data_lookup:
  assumes "same_data H (heap st)"
  shows "byte_to_sector (st\<lparr>heap := H\<rparr>) inode pos = byte_to_sector st inode pos"
    and "inode_length (st\<lparr>heap := H\<rparr>) inode = inode_length st inode"
proof -
  have *: "map_option data (H q) = map_option data (heap st q)" for q
    using assms by (simp add: same_data_def)
  show "byte_to_sector (st\<lparr>heap := H\<rparr>) inode pos = byte_to_sector st inode pos"
  proof (cases inode)
    case None then show ?thesis by (simp add: byte_to_sector_def)
  next
    case (Some q)
    with * [of q] show ?thesis
      by (cases "H q"; cases "heap st q") (simp_all add: byte_to_sector_def)
  qed
  show "inode_length (st\<lparr>heap := H\<rparr>) inode = inode_length st inode"
  proof (cases inode)
    case None then show ?thesis by (simp add: inode_length_def)
  next
    case (Some q)
    with * [of q] show ?thesis
      by (cases "H q"; cases "heap st q") (simp_all add: inode_length_def)
  qed
qed

lemma read_body_heap:
  assumes "same_data H (heap st)"
  shows "read_body (st\<lparr>heap := H\<rparr>) inode buffer ok sz offset br bounce =
    (case read_body st inode buffer ok sz offset br bounce of
       Inl f \<Rightarrow> Inl f
     | Inr Break \<Rightarrow> Inr Break
     | Inr (Continue (b, s, c, bo)) \<Rightarrow> Inr (Continue (b, s\<lparr>heap := H\<rparr>, c, bo)))"
  unfolding read_body_def same_data_lookup [OF assms]
  by (simp add: Let_def disk_read_def split: sum.splits)

lemma read_body_keeps_heap:
  "read_body st inode buffer ok sz offset br bounce = Inr (Continue (b, s, c, bo))
   \<Longrightarrow> heap s = heap st"
  by (auto simp: read_body_def Let_def disk_read_def split: sum.splits if_splits)

lemma write_body_heap:
  assumes "same_data H (heap st)"
  shows "write_body (st\<lparr>heap := H\<rparr>) inode buffer ok sz offset bw bounce =
    (case write_body st inode buffer ok sz offset bw bounce of
       Inl f \<Rightarrow> Inl f
     | Inr Break \<Rightarrow> Inr Break
     | Inr (Continue (s, c, bo)) \<Rightarrow> Inr (Continue (s\<lparr>heap := H\<rparr>, c, bo)))"
  unfolding write_body_def same_data_lookup [OF assms]
  by (simp add: Let_def disk_read_def disk_write_def split: sum.splits)

lemma write_body_keeps_heap:
  "write_body st inode buffer ok sz offset bw bounce = Inr (Continue (s, c, bo))
   \<Longrightarrow> heap s = heap st"
  by (auto simp: write_body_def Let_def disk_read_def disk_write_def
      split: sum.splits if_splits prod.splits)

lemma read_loop_heap:
  "same_data H (heap st) \<Longrightarrow>
   inode_read_loop (st\<lparr>heap := H\<rparr>) inode buffer ok sz offset br bounce =
    (case inode_read_loop st inode buffer ok sz offset br bounce of
       Inl f \<Rightarrow> Inl f | Inr (n, b, s) \<Rightarrow> Inr (n, b, s\<lparr>heap := H\<rparr>))"
proof (induction "nat sz" arbitrary: st buffer sz offset br bounce rule: less_induct)
  case less
  note sd = less.prems
  show ?case
  proof (cases "0 < sz")
    case False
    then show ?thesis
      by (subst (1 2) inode_read_loop.simps) simp
  next
    case True
    show ?thesis
    proof (cases "read_body st inode buffer ok sz offset br bounce")
      case (Inl f)
      with True show ?thesis
        by (subst (1 2) inode_read_loop.simps) (simp add: read_body_heap [OF sd])
    next
      case (Inr r)
      show ?thesis
      proof (cases r)
        case Break
        with Inr True show ?thesis
          by (subst (1 2) inode_read_loop.simps) (simp add: read_body_heap [OF sd])
      next
        case (Continue x)
        obtain b s c bo where x: "x = (b, s, c, bo)" by (cases x)
        have rb: "read_body st inode buffer ok sz offset br bounce = Inr (Continue (b, s, c, bo))"
          using Inr Continue x by simp
        from read_body_chunk [OF rb] have "nat (sz - c) < nat sz" by simp
        moreover have "same_data H (heap s)" using sd read_body_keeps_heap [OF rb] by simp
        ultimately have ih: "inode_read_loop (s\<lparr>heap := H\<rparr>) inode b ok (sz - c) (offset + c) (br + c) bo =
          (case inode_read_loop s inode b ok (sz - c) (offset + c) (br + c) bo of
             Inl f \<Rightarrow> Inl f | Inr (n, b, s) \<Rightarrow> Inr (n, b, s\<lparr>heap := H\<rparr>))"
          by (rule less.hyps)
        show ?thesis
          using True rb ih
          by (subst (1 2) inode_read_loop.simps) (simp add: read_body_heap [OF sd])
      qed
    qed
  qed
qed

lemma write_loop_heap:
  "same_data H (heap st) \<Longrightarrow>
   inode_write_loop (st\<lparr>heap := H\<rparr>) inode buffer ok sz offset bw bounce =
    (case inode_write_loop st inode buffer ok sz offset bw bounce of
       Inl f \<Rightarrow> Inl f | Inr (n, s) \<Rightarrow> Inr (n, s\<lparr>heap := H\<rparr>))"
proof (induction "nat sz" arbitrary: st sz offset bw bounce rule: less_induct)
  case less
  note sd = less.prems
  show ?case
  proof (cases "0 < sz")
    case False
    then show ?thesis
      by (subst (1 2) inode_write_loop.simps) simp
  next
    case True
    show ?thesis
    proof (cases "write_body st inode buffer ok sz offset bw bounce")
      case (Inl f)
      with True show ?thesis
        by (subst (1 2) inode_write_loop.simps) (simp add: write_body_heap [OF sd])
    next
      case (Inr r)
      show ?thesis
      proof (cases r)
        case Break
        with Inr True show ?thesis
          by (subst (1 2) inode_write_loop.simps) (simp add: write_body_heap [OF sd])
      next
        case (Continue x)
        obtain s c bo where x: "x = (s, c, bo)" by (cases x)
        have rb: "write_body st inode buffer ok sz offset bw bounce = Inr (Continue (s, c, bo))"
          using Inr Continue x by simp
        from write_body_chunk [OF rb] have "nat (sz - c) < nat sz" by simp
        moreover have "same_data H (heap s)" using sd write_body_keeps_heap [OF rb] by simp
        ultimately have ih: "inode_write_loop (s\<lparr>heap := H\<rparr>) inode buffer ok (sz - c) (offset + c) (bw + c) bo =
          (case inode_write_loop s inode buffer ok (sz - c) (offset + c) (bw + c) bo of
             Inl f \<Rightarrow> Inl f | Inr (n, s) \<Rightarrow> Inr (n, s\<lparr>heap := H\<rparr>))"
          by (rule less.hyps)
        show ?thesis
          using True rb ih
          by (subst (1 2) inode_write_loop.simps) (simp add: write_body_heap [OF sd])
      qed
    qed
  qed
qed

lemma same_data_removed:
  "heap st p = Some i \<Longrightarrow> same_data ((heap st)(p \<mapsto> i\<lparr>removed := True\<rparr>)) (heap st)"
  by (simp add: same_data_def)

text \<open>
  C9. Let \<open>p\<close> be a live handle with inode \<open>i\<close>, and \<open>st1\<close> the state \<open>st\<close> with the flag
  \<^verbatim>\<open>removed\<close> of \<open>p\<close> set and nothing else changed: the disk, the free map, the list of open
  inodes, the record of calls and every other field and inode are those of \<open>st\<close>. Then
  \<^verbatim>\<open>inode_remove\<close> turns \<open>st\<close> into \<open>st1\<close>, and \<open>st1\<close> into itself (twice is once). Through
  every handle the length is the same in \<open>st1\<close> as in \<open>st\<close>, and every read and every write
  returns in \<open>st1\<close> what it returns in \<open>st\<close>, the same count, buffer, disk and calls, the
  state differing in the flag only. \<^verbatim>\<open>inode_close\<close> on the marked handle gives the inode's
  sector and its data sectors back to the allocator when this was the last opener
  (\<open>open_cnt i = 1\<close>), and only decrements the count otherwise; on a handle that is not
  marked it releases nothing.
\<close>
theorem remove_only_marks:
  assumes h: "heap st p = Some i"
    and st1: "st1 = st\<lparr>heap := (heap st)(p \<mapsto> i\<lparr>removed := True\<rparr>)\<rparr>"
  shows "inode_remove st (Some p) = Inr st1
    \<and> inode_remove st1 (Some p) = Inr st1
    \<and> inode_length st1 inode = inode_length st inode
    \<and> inode_read_at st1 inode buffer malloc_ok sz offset =
        (case inode_read_at st inode buffer malloc_ok sz offset of
           Inl f \<Rightarrow> Inl f | Inr (n, b, s) \<Rightarrow> Inr (n, b, s\<lparr>heap := heap st1\<rparr>))
    \<and> inode_write_at st1 inode buffer malloc_ok sz offset =
        (case inode_write_at st inode buffer malloc_ok sz offset of
           Inl f \<Rightarrow> Inl f | Inr (n, s) \<Rightarrow> Inr (n, s\<lparr>heap := heap st1\<rparr>))
    \<and> (is_off_t (open_cnt i - 1) \<longrightarrow>
         inode_close st1 (Some p) =
           Inr (if open_cnt i = 1
                then st\<lparr>free_map := (\<lambda>s. \<not> in_sectors (start (data i))
                                         (bytes_to_sectors (sint (dlength (data i)))) s
                                       \<and> \<not> in_sectors (sector i) 1 s \<and> free_map st s),
                        open_inodes := remove1 p (open_inodes st),
                        heap := (heap st)(p := None),
                        events := events st @
                          [Free_Map_Release (sector i) 1,
                           Free_Map_Release (start (data i))
                             (bytes_to_sectors (sint (dlength (data i))))]\<rparr>
                else st\<lparr>heap := (heap st)(p \<mapsto> i\<lparr>removed := True, open_cnt := open_cnt i - 1\<rparr>)\<rparr>))
    \<and> (is_off_t (open_cnt i - 1) \<and> \<not> removed i \<longrightarrow>
         inode_close st (Some p) =
           Inr (if open_cnt i = 1
                then st\<lparr>open_inodes := remove1 p (open_inodes st), heap := (heap st)(p := None)\<rparr>
                else st\<lparr>heap := (heap st)(p \<mapsto> i\<lparr>open_cnt := open_cnt i - 1\<rparr>)\<rparr>))"
proof -
  note sd = same_data_removed [OF h]
  have hs: "heap st1 = (heap st)(p \<mapsto> i\<lparr>removed := True\<rparr>)" by (simp add: st1)
  have 1: "inode_remove st (Some p) = Inr st1" using h by (simp add: inode_remove_def st1)
  have 2: "inode_remove st1 (Some p) = Inr st1" by (simp add: inode_remove_def st1)
  have 3: "inode_length st1 inode = inode_length st inode"
    unfolding st1 by (rule same_data_lookup(2) [OF sd])
  have 4: "inode_read_at st1 inode buffer malloc_ok sz offset =
        (case inode_read_at st inode buffer malloc_ok sz offset of
           Inl f \<Rightarrow> Inl f | Inr (n, b, s) \<Rightarrow> Inr (n, b, s\<lparr>heap := heap st1\<rparr>))"
    unfolding inode_read_at_def hs by (simp add: st1 read_loop_heap [OF sd])
  have 5: "inode_write_at st1 inode buffer malloc_ok sz offset =
        (case inode_write_at st inode buffer malloc_ok sz offset of
           Inl f \<Rightarrow> Inl f | Inr (n, s) \<Rightarrow> Inr (n, s\<lparr>heap := heap st1\<rparr>))"
    unfolding inode_write_at_def hs by (simp add: st1 write_loop_heap [OF sd])
  have 6: "is_off_t (open_cnt i - 1) \<longrightarrow>
         inode_close st1 (Some p) =
           Inr (if open_cnt i = 1
                then st\<lparr>free_map := (\<lambda>s. \<not> in_sectors (start (data i))
                                         (bytes_to_sectors (sint (dlength (data i)))) s
                                       \<and> \<not> in_sectors (sector i) 1 s \<and> free_map st s),
                        open_inodes := remove1 p (open_inodes st),
                        heap := (heap st)(p := None),
                        events := events st @
                          [Free_Map_Release (sector i) 1,
                           Free_Map_Release (start (data i))
                             (bytes_to_sectors (sint (dlength (data i))))]\<rparr>
                else st\<lparr>heap := (heap st)(p \<mapsto> i\<lparr>removed := True, open_cnt := open_cnt i - 1\<rparr>)\<rparr>)"
    by (simp add: inode_close_def st1 free_map_release_def Let_def)
  have 7: "is_off_t (open_cnt i - 1) \<and> \<not> removed i \<longrightarrow>
         inode_close st (Some p) =
           Inr (if open_cnt i = 1
                then st\<lparr>open_inodes := remove1 p (open_inodes st), heap := (heap st)(p := None)\<rparr>
                else st\<lparr>heap := (heap st)(p \<mapsto> i\<lparr>open_cnt := open_cnt i - 1\<rparr>)\<rparr>)"
    using h by (simp add: inode_close_def Let_def)
  from 1 2 3 4 5 6 7 show ?thesis by blast
qed

theorem remove_only_marks_witness:
  "inode_remove example_fs (Some 1) =
     Inr (example_fs\<lparr>heap := (heap example_fs)(1 \<mapsto> example_inode\<lparr>removed := True\<rparr>)\<rparr>)
   \<and> inode_close (example_fs\<lparr>heap := (heap example_fs)(1 \<mapsto> example_inode\<lparr>removed := True\<rparr>)\<rparr>)
       (Some 1) =
     Inr (example_fs\<lparr>free_map := (\<lambda>s. \<not> in_sectors 10 (bytes_to_sectors 1000) s
                                       \<and> \<not> in_sectors 5 1 s \<and> free_map example_fs s),
                        open_inodes := [],
                        heap := (heap example_fs)(1 := None),
                        events := [Free_Map_Release 5 1,
                                   Free_Map_Release 10 (bytes_to_sectors 1000)]\<rparr>)
   \<and> inode_close example_fs (Some 1) =
     Inr (example_fs\<lparr>open_inodes := [], heap := (heap example_fs)(1 := None)\<rparr>)"
  using remove_only_marks [of example_fs 1 example_inode
      "example_fs\<lparr>heap := (heap example_fs)(1 \<mapsto> example_inode\<lparr>removed := True\<rparr>)\<rparr>"]
  by (simp add: example_fs_def example_inode_def is_off_t_def)

section \<open>The list of open inodes holds one inode per sector\<close>

lemma registry_ok_alt:
  "registry_ok st \<longleftrightarrow>
     distinct (open_inodes st)
     \<and> (\<forall>p\<in>set (open_inodes st). \<exists>i. heap st p = Some i \<and> 1 \<le> open_cnt i)
     \<and> (\<forall>p\<in>set (open_inodes st). \<forall>q\<in>set (open_inodes st).
           map_option sector (heap st p) = map_option sector (heap st q) \<longrightarrow> p = q)"
proof -
  have "(case heap st p of None \<Rightarrow> False | Some i \<Rightarrow> 1 \<le> open_cnt i)
      \<longleftrightarrow> (\<exists>i. heap st p = Some i \<and> 1 \<le> open_cnt i)" for p
    by (cases "heap st p") simp_all
  then show ?thesis unfolding registry_ok_def by simp
qed

lemma find_open_none:
  assumes "\<forall>p\<in>set ps. \<exists>i. heap st p = Some i \<and> sector i \<noteq> sec"
  shows "find_open st ps sec = Inr None"
  using assms
proof (induction ps)
  case Nil
  show ?case by simp
next
  case (Cons a ps)
  from Cons.prems obtain j where j: "heap st a = Some j" "sector j \<noteq> sec"
    by (meson list.set_intros(1))
  have "\<forall>p\<in>set ps. \<exists>i. heap st p = Some i \<and> sector i \<noteq> sec"
    using Cons.prems by (meson list.set_intros(2))
  then have "find_open st ps sec = Inr None" by (rule Cons.IH)
  then show ?case using j by simp
qed

lemma find_open_some:
  assumes "\<forall>q\<in>set ps. \<exists>i. heap st q = Some i"
    and "p \<in> set ps" and "heap st p = Some i" and "sector i = sec"
    and "\<forall>q\<in>set ps. map_option sector (heap st q) = Some sec \<longrightarrow> q = p"
  shows "find_open st ps sec = Inr (Some p)"
  using assms(1,2,5)
proof (induction ps)
  case Nil
  then show ?case by simp
next
  case (Cons a ps)
  from Cons.prems(1) obtain j where j: "heap st a = Some j"
    by (meson list.set_intros(1))
  show ?case
  proof (cases "sector j = sec")
    case True
    have "map_option sector (heap st a) = Some sec" using j True by simp
    then have "a = p" using Cons.prems(3) by (meson list.set_intros(1))
    then show ?thesis using j True by simp
  next
    case False
    then have "a \<noteq> p" using j assms(3,4) by auto
    then have 1: "p \<in> set ps" using Cons.prems(2) by simp
    have 2: "\<forall>q\<in>set ps. \<exists>i. heap st q = Some i"
      using Cons.prems(1) by (meson list.set_intros(2))
    have 3: "\<forall>q\<in>set ps. map_option sector (heap st q) = Some sec \<longrightarrow> q = p"
      using Cons.prems(3) by (meson list.set_intros(2))
    have "find_open st ps sec = Inr (Some p)" by (rule Cons.IH [OF 2 1 3])
    then show ?thesis using j False by simp
  qed
qed

text \<open>What the search returns when every pointer of the list is live.\<close>
lemma find_open_result:
  assumes "\<forall>q\<in>set ps. \<exists>i. heap st q = Some i"
  shows "(\<exists>p i. find_open st ps sec = Inr (Some p) \<and> p \<in> set ps \<and> heap st p = Some i
            \<and> sector i = sec)
       \<or> (find_open st ps sec = Inr None
            \<and> (\<forall>q\<in>set ps. map_option sector (heap st q) \<noteq> Some sec))"
  using assms
proof (induction ps)
  case Nil
  show ?case by simp
next
  case (Cons a ps)
  from Cons.prems obtain j where j: "heap st a = Some j"
    by (meson list.set_intros(1))
  have 2: "\<forall>q\<in>set ps. \<exists>i. heap st q = Some i"
    using Cons.prems by (meson list.set_intros(2))
  show ?case
  proof (cases "sector j = sec")
    case True
    then have "find_open st (a # ps) sec = Inr (Some a)" using j by simp
    then show ?thesis using j True by (intro disjI1 exI [of _ a] exI [of _ j]) simp
  next
    case False
    then have f: "find_open st (a # ps) sec = find_open st ps sec" using j by simp
    from Cons.IH [OF 2] show ?thesis
    proof
      assume "\<exists>p i. find_open st ps sec = Inr (Some p) \<and> p \<in> set ps \<and> heap st p = Some i
            \<and> sector i = sec"
      then obtain p i where "find_open st ps sec = Inr (Some p)" "p \<in> set ps"
        "heap st p = Some i" "sector i = sec" by blast
      then show ?thesis unfolding f by (intro disjI1 exI [of _ p] exI [of _ i]) simp
    next
      assume n: "find_open st ps sec = Inr None
            \<and> (\<forall>q\<in>set ps. map_option sector (heap st q) \<noteq> Some sec)"
      have "map_option sector (heap st a) \<noteq> Some sec" using j False by simp
      with n show ?thesis unfolding f by (intro disjI2) simp
    qed
  qed
qed

lemma registry_ok_reopen:
  assumes ok: "registry_ok st" and h: "heap st p = Some i" and c: "c = open_cnt i + 1 \<or> (c = open_cnt i - 1 \<and> c \<noteq> 0)"
  shows "registry_ok (st\<lparr>heap := (heap st)(p \<mapsto> i\<lparr>open_cnt := c\<rparr>)\<rparr>)"
  unfolding registry_ok_alt
proof (intro conjI ballI impI)
  let ?st = "st\<lparr>heap := (heap st)(p \<mapsto> i\<lparr>open_cnt := c\<rparr>)\<rparr>"
  show "distinct (open_inodes ?st)" using ok by (simp add: registry_ok_alt)
  from ok have u: "\<forall>p\<in>set (open_inodes st). \<forall>q\<in>set (open_inodes st).
      map_option sector (heap st p) = map_option sector (heap st q) \<longrightarrow> p = q"
    unfolding registry_ok_alt by blast
  have sec: "map_option sector (heap ?st q) = map_option sector (heap st q)" for q
    using h by simp
  {
    fix q assume q: "q \<in> set (open_inodes ?st)"
    then obtain j where j: "heap st q = Some j" "1 \<le> open_cnt j"
      using ok by (auto simp: registry_ok_alt)
    show "\<exists>i. heap ?st q = Some i \<and> 1 \<le> open_cnt i"
    proof (cases "q = p")
      case True
      then have "1 \<le> c" using j h c by auto
      then show ?thesis using True by simp
    next
      case False
      then show ?thesis using j by simp
    qed
  }
  {
    fix q r assume a: "q \<in> set (open_inodes ?st)" "r \<in> set (open_inodes ?st)"
      "map_option sector (heap ?st q) = map_option sector (heap ?st r)"
    from a(3) have "map_option sector (heap st q) = map_option sector (heap st r)"
      unfolding sec .
    moreover from a(1,2) have "q \<in> set (open_inodes st)" "r \<in> set (open_inodes st)"
      by simp_all
    ultimately show "q = r" using u by blast
  }
qed

lemma registry_ok_live:
  "registry_ok st \<Longrightarrow> \<forall>q\<in>set (open_inodes st). \<exists>i. heap st q = Some i"
  unfolding registry_ok_alt by blast

lemma registry_ok_open_new:
  assumes ok: "registry_ok st" and fresh: "heap st p = None"
    and none: "\<forall>q\<in>set (open_inodes st). map_option sector (heap st q) \<noteq> Some sec"
    and i: "sector i = sec" "open_cnt i = 1"
    and l: "open_inodes st' = p # open_inodes st" and h: "heap st' = (heap st)(p \<mapsto> i)"
  shows "registry_ok st'"
  unfolding registry_ok_alt
proof (intro conjI ballI impI)
  have pn: "p \<notin> set (open_inodes st)" using registry_ok_live [OF ok] fresh by auto
  show "distinct (open_inodes st')" using ok pn by (simp add: l registry_ok_alt)
  from ok have u: "\<forall>p\<in>set (open_inodes st). \<forall>q\<in>set (open_inodes st).
      map_option sector (heap st p) = map_option sector (heap st q) \<longrightarrow> p = q"
    unfolding registry_ok_alt by blast
  from ok have c: "\<forall>p\<in>set (open_inodes st). \<exists>i. heap st p = Some i \<and> 1 \<le> open_cnt i"
    unfolding registry_ok_alt by blast
  have old: "heap st' q = heap st q" if "q \<in> set (open_inodes st)" for q
    using that pn by (auto simp: h)
  have new: "map_option sector (heap st' p) = Some sec" by (simp add: h i)
  {
    fix q assume "q \<in> set (open_inodes st')"
    then consider "q = p" | "q \<in> set (open_inodes st)" by (auto simp: l)
    then show "\<exists>i. heap st' q = Some i \<and> 1 \<le> open_cnt i"
    proof cases
      case 1 then show ?thesis by (simp add: h i)
    next
      case 2 then show ?thesis using c old by simp
    qed
  }
  {
    fix q r assume a: "q \<in> set (open_inodes st')" "r \<in> set (open_inodes st')"
      "map_option sector (heap st' q) = map_option sector (heap st' r)"
    show "q = r"
    proof (cases "q = p")
      case True
      show ?thesis
      proof (cases "r = p")
        case True with \<open>q = p\<close> show ?thesis by simp
      next
        case False
        then have "r \<in> set (open_inodes st)" using a(2) by (simp add: l)
        then have "map_option sector (heap st' r) \<noteq> Some sec" using none old by simp
        then show ?thesis using a(3) True \<open>q = p\<close> new by metis
      qed
    next
      case False
      then have q: "q \<in> set (open_inodes st)" using a(1) by (simp add: l)
      show ?thesis
      proof (cases "r = p")
        case True
        have "map_option sector (heap st' q) \<noteq> Some sec" using none old q by simp
        then show ?thesis using a(3) True new by metis
      next
        case False
        then have r: "r \<in> set (open_inodes st)" using a(2) by (simp add: l)
        have "map_option sector (heap st q) = map_option sector (heap st r)"
          using a(3) old q r by simp
        then show ?thesis using u q r by blast
      qed
    qed
  }
qed

lemma registry_ok_close_last:
  assumes ok: "registry_ok st"
    and l: "open_inodes st' = remove1 p (open_inodes st)" and h: "heap st' = (heap st)(p := None)"
  shows "registry_ok st'"
  unfolding registry_ok_alt
proof (intro conjI ballI impI)
  from ok have d: "distinct (open_inodes st)" unfolding registry_ok_alt by blast
  then show "distinct (open_inodes st')" by (simp add: l)
  from ok have u: "\<forall>p\<in>set (open_inodes st). \<forall>q\<in>set (open_inodes st).
      map_option sector (heap st p) = map_option sector (heap st q) \<longrightarrow> p = q"
    unfolding registry_ok_alt by blast
  from ok have c: "\<forall>p\<in>set (open_inodes st). \<exists>i. heap st p = Some i \<and> 1 \<le> open_cnt i"
    unfolding registry_ok_alt by blast
  have mem: "q \<in> set (open_inodes st) \<and> q \<noteq> p" if "q \<in> set (open_inodes st')" for q
    using that d by (simp add: l)
  then have old: "heap st' q = heap st q" if "q \<in> set (open_inodes st')" for q
    using that by (simp add: h)
  {
    fix q assume q: "q \<in> set (open_inodes st')"
    then show "\<exists>i. heap st' q = Some i \<and> 1 \<le> open_cnt i" using c mem old by simp
  }
  {
    fix q r assume a: "q \<in> set (open_inodes st')" "r \<in> set (open_inodes st')"
      "map_option sector (heap st' q) = map_option sector (heap st' r)"
    then have "map_option sector (heap st q) = map_option sector (heap st r)"
      using old by simp
    then show "q = r" using u mem a(1,2) by blast
  }
qed

lemma registry_ok_same:
  "registry_ok st \<Longrightarrow> open_inodes st' = open_inodes st \<Longrightarrow> heap st' = heap st
   \<Longrightarrow> registry_ok st'"
  by (simp add: registry_ok_alt)

lemma reopen_preserves:
  assumes ok: "registry_ok st" and r: "inode_reopen st inode = Inr (inode', st')"
  shows "registry_ok st'"
proof (cases inode)
  case None
  with r ok show ?thesis by (simp add: inode_reopen_def)
next
  case (Some p)
  show ?thesis
  proof (cases "heap st p")
    case None
    with r Some show ?thesis by (simp add: inode_reopen_def)
  next
    case (Some i)
    with r \<open>inode = Some p\<close>
    have "st' = st\<lparr>heap := (heap st)(p \<mapsto> i\<lparr>open_cnt := open_cnt i + 1\<rparr>)\<rparr>"
      by (simp add: inode_reopen_def split: if_splits)
    then show ?thesis using registry_ok_reopen [OF ok Some, of "open_cnt i + 1"] by simp
  qed
qed

lemma open_preserves:
  assumes ok: "registry_ok st" and fresh: "malloc_fresh st (Open sec m)"
    and r: "inode_open st m sec = Inr (inode, st')"
  shows "registry_ok st'"
proof -
  from find_open_result [OF registry_ok_live [OF ok], of sec]
  show ?thesis
  proof
    assume "\<exists>p i. find_open st (open_inodes st) sec = Inr (Some p) \<and> p \<in> set (open_inodes st)
        \<and> heap st p = Some i \<and> sector i = sec"
    then obtain p where "find_open st (open_inodes st) sec = Inr (Some p)" by blast
    then have "inode_reopen st (Some p) = Inr (inode, st')" using r by (simp add: inode_open_whole)
    then show ?thesis by (rule reopen_preserves [OF ok])
  next
    assume n: "find_open st (open_inodes st) sec = Inr None
        \<and> (\<forall>q\<in>set (open_inodes st). map_option sector (heap st q) \<noteq> Some sec)"
    show ?thesis
    proof (cases m)
      case None
      with n r ok show ?thesis by (simp add: inode_open_whole)
    next
      case (Some p)
      from n have f: "find_open st (open_inodes st) sec = Inr None" by blast
      from fresh Some have fr: "heap st p = None" by simp
      from r Some have st': "st' = st\<lparr>open_inodes := p # open_inodes st,
            events := events st @ [Disk_Read sec],
            heap := (heap st)(p \<mapsto>
              \<lparr>sector = sec, open_cnt = 1, removed = False,
               data = inode_disk_of_bytes (sector_at (disk st sec) 0),
               inode_lock = Lock_Free, dir_lock = Lock_Uninitialised\<rparr>)\<rparr>"
        by (simp add: inode_open_new [OF f])
      show ?thesis
        by (rule registry_ok_open_new [OF ok fr conjunct2 [OF n], where st' = st'
              and i = "\<lparr>sector = sec, open_cnt = 1, removed = False,
               data = inode_disk_of_bytes (sector_at (disk st sec) 0),
               inode_lock = Lock_Free, dir_lock = Lock_Uninitialised\<rparr>"])
           (simp_all add: st')
    qed
  qed
qed

lemma close_preserves:
  assumes ok: "registry_ok st" and r: "inode_close st inode = Inr st'"
  shows "registry_ok st'"
proof (cases inode)
  case None
  with r ok show ?thesis by (simp add: inode_close_def)
next
  case (Some p)
  show ?thesis
  proof (cases "heap st p")
    case None
    with r Some show ?thesis by (simp add: inode_close_def)
  next
    case (Some i)
    show ?thesis
    proof (cases "open_cnt i - 1 = 0")
      case True
      with r Some \<open>inode = Some p\<close>
      have "open_inodes st' = remove1 p (open_inodes st) \<and> heap st' = (heap st)(p := None)"
        by (auto simp: inode_close_def Let_def free_map_release_def split: if_splits)
      then show ?thesis using registry_ok_close_last [OF ok] by blast
    next
      case False
      with r Some \<open>inode = Some p\<close>
      have "st' = st\<lparr>heap := (heap st)(p \<mapsto> i\<lparr>open_cnt := open_cnt i - 1\<rparr>)\<rparr>"
        by (simp add: inode_close_def split: if_splits)
      then show ?thesis
        using registry_ok_reopen [OF ok Some, of "open_cnt i - 1"] False by simp
    qed
  qed
qed

lemma perform_preserves:
  assumes "registry_ok st" and "malloc_fresh st r" and "perform st r = Inr st'"
  shows "registry_ok st'"
proof (cases r)
  case (Open sec m)
  with assms(3) obtain inode where "inode_open st m sec = Inr (inode, st')"
    by (auto split: sum.splits)
  then show ?thesis using open_preserves assms(1,2) Open by blast
next
  case (Reopen inode)
  with assms(3) obtain inode' where "inode_reopen st inode = Inr (inode', st')"
    by (auto split: sum.splits)
  then show ?thesis using reopen_preserves assms(1) by blast
next
  case (Close inode)
  with assms(3) show ?thesis using close_preserves assms(1) by simp
qed

lemma perform_all_preserves:
  "registry_ok st \<Longrightarrow> mallocs_fresh st rs \<Longrightarrow> perform_all st rs = Inr st' \<Longrightarrow> registry_ok st'"
proof (induction rs arbitrary: st)
  case Nil
  then show ?case by simp
next
  case (Cons r rs)
  from Cons.prems(3) obtain st1 where 1: "perform st r = Inr st1" "perform_all st1 rs = Inr st'"
    by (auto split: sum.splits)
  from Cons.prems(2) 1 have 2: "malloc_fresh st r" "mallocs_fresh st1 rs" by simp_all
  from perform_preserves [OF Cons.prems(1) 2(1) 1(1)] have "registry_ok st1" .
  then show ?case using 2(2) 1(2) by (rule Cons.IH)
qed

lemma mallocs_fresh_take:
  "mallocs_fresh st rs \<Longrightarrow> mallocs_fresh st (take k rs)"
proof (induction rs arbitrary: st k)
  case Nil
  then show ?case by simp
next
  case (Cons r rs)
  show ?case
  proof (cases k)
    case 0
    then show ?thesis by simp
  next
    case (Suc n)
    show ?thesis
    proof (cases "perform st r")
      case (Inl f)
      with Cons.prems Suc show ?thesis by simp
    next
      case (Inr st1)
      with Cons.prems have "mallocs_fresh st1 rs" by simp
      then have "mallocs_fresh st1 (take n rs)" by (rule Cons.IH)
      with Cons.prems Suc Inr show ?thesis by simp
    qed
  qed
qed

lemma inode_open_of_open_sector:
  assumes ok: "registry_ok st" and p: "p \<in> set (open_inodes st)" and h: "heap st p = Some i"
    and s: "sector i = sec" and c: "is_off_t (open_cnt i + 1)"
  shows "inode_open st m sec =
    Inr (Some p, st\<lparr>heap := (heap st)(p \<mapsto> i\<lparr>open_cnt := open_cnt i + 1\<rparr>)\<rparr>)"
proof -
  from ok have u: "\<forall>p\<in>set (open_inodes st). \<forall>q\<in>set (open_inodes st).
      map_option sector (heap st p) = map_option sector (heap st q) \<longrightarrow> p = q"
    unfolding registry_ok_alt by blast
  have "map_option sector (heap st p) = Some sec" using h s by simp
  then have "\<forall>q\<in>set (open_inodes st). map_option sector (heap st q) = Some sec \<longrightarrow> q = p"
    using u p by metis
  from find_open_some [OF registry_ok_live [OF ok] p h s this]
  show ?thesis using h c by (rule inode_open_reuse)
qed

lemma inode_open_of_closed_sector:
  assumes ok: "registry_ok st"
    and n: "\<forall>q\<in>set (open_inodes st). map_option sector (heap st q) \<noteq> Some sec"
  shows "find_open st (open_inodes st) sec = Inr None"
proof -
  from find_open_result [OF registry_ok_live [OF ok], of sec] n show ?thesis
    by (metis option.simps(9))
qed

text \<open>Between its two parts \<^verbatim>\<open>inode_open\<close> has the new block at the front of the list with no
  field assigned and \<^verbatim>\<open>inode_list_lock\<close> released. The list does not satisfy the invariant
  there, and a search of the list in that state, as another \<^verbatim>\<open>inode_open\<close> would make it, takes
  the block's \<^verbatim>\<open>inode_lock\<close> and reads its \<^verbatim>\<open>sector\<close> before either is set.\<close>
lemma inode_open_between_parts:
  assumes l: "inode_open_locked st (Some p) sec = Inr (Pushed q, st1)" and f: "heap st p = None"
  shows "q = p" and "st1 = st\<lparr>open_inodes := p # open_inodes st\<rparr>"
    and "\<not> registry_ok st1" and "find_open st1 (open_inodes st1) sec' = Inl Invalid_Pointer"
proof -
  from l show 1: "q = p" and 2: "st1 = st\<lparr>open_inodes := p # open_inodes st\<rparr>"
    by (auto simp: inode_open_locked_def split: sum.splits option.splits prod.splits)
  from 2 f show "\<not> registry_ok st1" by (simp add: registry_ok_def)
  from 2 f show "find_open st1 (open_inodes st1) sec' = Inl Invalid_Pointer" by simp
qed

text \<open>
  C8, for calls that run one after the other, each to its return. After \<^verbatim>\<open>inode_init\<close> the
  list of open inodes satisfies \<open>registry_ok\<close>: no inode twice,
  every inode live with an \<^verbatim>\<open>open_cnt\<close> of at least 1, and no two inodes with the same
  sector. Every sequence of calls of \<^verbatim>\<open>inode_open\<close>, \<^verbatim>\<open>inode_reopen\<close> and \<^verbatim>\<open>inode_close\<close> keeps
  it so: after each prefix (\<open>take k rs\<close>) of the sequence that has run without a
  fault, from any state that satisfies it, when each \<^verbatim>\<open>malloc\<close> returns null or a block that
  is not in use. Under the invariant, \<^verbatim>\<open>inode_open\<close> of a sector that an open inode has
  returns that inode with its count incremented and changes nothing else; \<^verbatim>\<open>inode_open\<close> of a
  sector that no open inode has puts one new inode with count 1 at the front of the list,
  or returns null and changes nothing when \<^verbatim>\<open>malloc\<close> fails.
\<close>
theorem one_inode_per_sector:
  "registry_ok (inode_init st0)
   \<and> (registry_ok st \<and> mallocs_fresh st rs \<and> perform_all st (take k rs) = Inr st'
        \<longrightarrow> registry_ok st')
   \<and> (registry_ok st \<and> p \<in> set (open_inodes st) \<and> heap st p = Some i \<and> sector i = sec
        \<and> is_off_t (open_cnt i + 1) \<longrightarrow>
      inode_open st m sec =
        Inr (Some p, st\<lparr>heap := (heap st)(p \<mapsto> i\<lparr>open_cnt := open_cnt i + 1\<rparr>)\<rparr>))
   \<and> (registry_ok st
        \<and> (\<forall>q\<in>set (open_inodes st). map_option sector (heap st q) \<noteq> Some sec) \<longrightarrow>
      inode_open st (Some p) sec =
        Inr (Some p,
             st\<lparr>open_inodes := p # open_inodes st,
                events := events st @ [Disk_Read sec],
                heap := (heap st)(p \<mapsto>
                  \<lparr>sector = sec, open_cnt = 1, removed = False,
                   data = inode_disk_of_bytes (sector_at (disk st sec) 0),
                   inode_lock = Lock_Free, dir_lock = Lock_Uninitialised\<rparr>)\<rparr>)
      \<and> inode_open st None sec = Inr (None, st))"
proof (intro conjI impI)
  show "registry_ok (inode_init st0)" by (simp add: registry_ok_alt inode_init_def)
next
  assume "registry_ok st \<and> mallocs_fresh st rs \<and> perform_all st (take k rs) = Inr st'"
  then show "registry_ok st'"
    using perform_all_preserves [of st "take k rs" st'] mallocs_fresh_take [of st rs k] by blast
next
  assume "registry_ok st \<and> p \<in> set (open_inodes st) \<and> heap st p = Some i \<and> sector i = sec
        \<and> is_off_t (open_cnt i + 1)"
  then show "inode_open st m sec =
        Inr (Some p, st\<lparr>heap := (heap st)(p \<mapsto> i\<lparr>open_cnt := open_cnt i + 1\<rparr>)\<rparr>)"
    using inode_open_of_open_sector by blast
next
  assume a: "registry_ok st
        \<and> (\<forall>q\<in>set (open_inodes st). map_option sector (heap st q) \<noteq> Some sec)"
  then have f: "find_open st (open_inodes st) sec = Inr None"
    using inode_open_of_closed_sector by blast
  then show "inode_open st (Some p) sec =
        Inr (Some p,
             st\<lparr>open_inodes := p # open_inodes st,
                events := events st @ [Disk_Read sec],
                heap := (heap st)(p \<mapsto>
                  \<lparr>sector = sec, open_cnt = 1, removed = False,
                   data = inode_disk_of_bytes (sector_at (disk st sec) 0),
                   inode_lock = Lock_Free, dir_lock = Lock_Uninitialised\<rparr>)\<rparr>)"
    by (rule inode_open_new)
  from f show "inode_open st None sec = Inr (None, st)" by (simp add: inode_open_whole)
qed

text \<open>From the example file system: sector 5 is opened again, sector 7 is opened at the
  new address 2, the first inode is closed twice and so freed, and the second is reopened.\<close>
theorem one_inode_per_sector_witness:
  "registry_ok (inode_init example_fs)
   \<and> registry_ok (projr (perform_all example_fs (take 5 example_requests)))
   \<and> open_inodes (projr (perform_all example_fs (take 5 example_requests))) = [2]
   \<and> inode_open example_fs None 5 =
        Inr (Some 1, example_fs\<lparr>heap := (heap example_fs)(1 \<mapsto>
               example_inode\<lparr>open_cnt := open_cnt example_inode + 1\<rparr>)\<rparr>)
   \<and> inode_open example_fs (Some 2) 7 =
        Inr (Some 2,
             example_fs\<lparr>open_inodes := 2 # open_inodes example_fs,
                events := events example_fs @ [Disk_Read 7],
                heap := (heap example_fs)(2 \<mapsto>
                  \<lparr>sector = 7, open_cnt = 1, removed = False,
                   data = inode_disk_of_bytes (sector_at (disk example_fs 7) 0),
                   inode_lock = Lock_Free, dir_lock = Lock_Uninitialised\<rparr>)\<rparr>)
   \<and> inode_open example_fs None 7 = Inr (None, example_fs)"
  using one_inode_per_sector [of example_fs example_fs example_requests 5
      "projr (perform_all example_fs (take 5 example_requests))" 1 example_inode 5 None]
    one_inode_per_sector [of example_fs example_fs example_requests 5
      "projr (perform_all example_fs (take 5 example_requests))" 2 example_inode 7 None]
  by (simp add: example_requests_def example_fs_def example_inode_def is_off_t_def
      registry_ok_def inode_open_whole inode_reopen_def inode_close_def disk_read_def Let_def)

text \<open>The claim C8 as stated has \<^verbatim>\<open>inode_open\<close> of a sector that is not open insert one new
  inode. Sector 7 of the example file system is not open; when \<^verbatim>\<open>malloc\<close> returns a null
  pointer, \<^verbatim>\<open>inode_open\<close> returns the null pointer, as its comment says, and the list is as it
  was, with the one inode of sector 5.\<close>
theorem open_without_memory_inserts_nothing:
  "find_open example_fs (open_inodes example_fs) 7 = Inr None
   \<and> inode_open example_fs None 7 = Inr (None, example_fs)
   \<and> open_inodes example_fs = [1]
   \<and> map_option sector (heap example_fs 1) = Some 5"
  by (simp add: inode_open_whole example_fs_def example_inode_def)

section \<open>Creation\<close>

text \<open>The four bytes of a field make up the field again.\<close>
lemma word_of_its_bytes:
  fixes w :: "32 word"
  shows "ucast (ucast w :: byte) OR push_bit 8 (ucast (ucast (drop_bit 8 w) :: byte))
       OR push_bit 16 (ucast (ucast (drop_bit 16 w) :: byte))
       OR push_bit 24 (ucast (ucast (drop_bit 24 w) :: byte)) = w"
proof (rule bit_word_eqI)
  fix n assume n: "n < LENGTH(32)"
  then consider "n < 8" | "8 \<le> n \<and> n < 16" | "16 \<le> n \<and> n < 24" | "24 \<le> n \<and> n < 32"
    by fastforce
  then show "bit (ucast (ucast w :: byte) OR push_bit 8 (ucast (ucast (drop_bit 8 w) :: byte))
       OR push_bit 16 (ucast (ucast (drop_bit 16 w) :: byte))
       OR push_bit 24 (ucast (ucast (drop_bit 24 w) :: byte)) :: 32 word) n = bit w n"
    by cases (auto simp add: bit_simps)
qed

lemma inode_disk_of_bytes_start:
  "start (inode_disk_of_bytes (sector_at (sector_at (inode_disk_bytes d) 0) 0)) = start d"
  by (simp add: inode_disk_of_bytes_def word_at_def sector_at_def inode_disk_bytes_def
      word_byte_def word_of_its_bytes)

lemma inode_disk_of_bytes_dlength:
  "dlength (inode_disk_of_bytes (sector_at (sector_at (inode_disk_bytes d) 0) 0)) = dlength d"
  by (simp add: inode_disk_of_bytes_def word_at_def sector_at_def inode_disk_bytes_def
      word_byte_def word_of_its_bytes)

lemma inode_disk_of_zeros:
  "start (inode_disk_of_bytes (sector_at zeros 0)) = 0"
  "dlength (inode_disk_of_bytes (sector_at zeros 0)) = 0"
  by (simp_all add: inode_disk_of_bytes_def word_at_def sector_at_def zeros_def)

lemma sector_at_zeros: "sector_at zeros 0 = zeros"
  by (simp add: sector_at_def zeros_def fun_eq_iff)

lemma sint_off_t:
  "0 \<le> len \<Longrightarrow> len < 2 ^ 31 \<Longrightarrow> sint (word_of_int len :: 32 word) = len"
  by (simp add: sint_sbintrunc' signed_take_bit_int_eq_self)

text \<open>The loop of \<^verbatim>\<open>inode_create\<close> that writes the zeros.\<close>
lemma zero_fill:
  fixes st2 :: filesys and first :: disk_sector_t
  defines "F \<equiv> \<lambda>n. foldl (\<lambda>s i. disk_write s (first + of_nat i) zeros) st2 [0..<n]"
  shows "disk (F n) = (\<lambda>s. if \<exists>k<n. s = first + of_nat k then zeros else disk st2 s)
    \<and> events (F n) = events st2 @ map (\<lambda>k. Disk_Write (first + of_nat k) zeros) [0..<n]
    \<and> heap (F n) = heap st2 \<and> open_inodes (F n) = open_inodes st2
    \<and> free_map (F n) = free_map st2"
proof (induction n)
  case 0
  show ?case by (simp add: F_def)
next
  case (Suc n)
  have F: "F (Suc n) = disk_write (F n) (first + of_nat n) zeros" by (simp add: F_def)
  have "(\<exists>k<Suc n. s = first + of_nat k) \<longleftrightarrow> s = first + of_nat n \<or> (\<exists>k<n. s = first + of_nat k)"
    for s using less_Suc_eq by auto
  then show ?case using Suc unfolding F
    by (auto simp add: disk_write_def sector_at_zeros fun_eq_iff)
qed

lemma bytes_to_sectors_ceil:
  assumes "0 \<le> len" "len < 2 ^ 31"
  shows "len \<le> 512 * int (bytes_to_sectors len)" "512 * int (bytes_to_sectors len) < len + 512"
proof -
  define c where "c = - ((- len) div 512)"
  have 1: "len \<le> 512 * c" "512 * c < len + 512" unfolding c_def by linarith+
  have p: "(2::int) ^ 31 = 2147483648" "(2::int) ^ 32 = 4294967296" by simp_all
  have "0 \<le> c" "c < 2 ^ 32" using 1 assms unfolding p by linarith+
  then have "int (bytes_to_sectors len) = c"
    by (simp add: bytes_to_sectors_def DIV_ROUND_UP_def DISK_SECTOR_SIZE_def c_def)
  with 1 show "len \<le> 512 * int (bytes_to_sectors len)"
    "512 * int (bytes_to_sectors len) < len + 512" by simp_all
qed

lemma inode_create_succeeds:
  assumes "0 \<le> len"
  shows "inode_create st True (Some first) sec len =
    Inr (True,
      foldl (\<lambda>s i. disk_write s (first + of_nat i) zeros)
        (disk_write
           (st\<lparr>free_map := (\<lambda>s. in_sectors first (bytes_to_sectors len) s \<or> free_map st s),
               events := events st @ [Free_Map_Allocate (bytes_to_sectors len)]\<rparr>)
           sec
           (inode_disk_bytes \<lparr>start = first, dlength = word_of_int len, magic = INODE_MAGIC,
              unused = replicate 125 0\<rparr>))
        [0..<bytes_to_sectors len])"
  using assms
  by (simp add: inode_create_def free_map_allocate_def Let_def calloc_inode_disk_def)

lemma inode_create_success_needs:
  "inode_create st calloc_ok ans sec len = Inr (True, s) \<Longrightarrow> calloc_ok \<and> ans \<noteq> None"
  by (auto simp: inode_create_def free_map_allocate_def Let_def split: if_splits option.splits)

lemma read_after_create:
  assumes len: "0 \<le> len" "len < 2 ^ 31" and n: "n = bytes_to_sectors len"
    and d: "d = \<lparr>start = first, dlength = word_of_int len, magic = INODE_MAGIC,
                 unused = replicate 125 0\<rparr>"
    and zs: "\<forall>k<n. disk st' (first + of_nat k) = zeros"
    and ds: "(\<forall>k<n. sec \<noteq> first + of_nat k) \<longrightarrow> disk st' sec = sector_at (inode_disk_bytes d) 0"
    and fo: "find_open st' (open_inodes st') sec = Inr None"
    and off: "0 \<le> offset" "offset < 2 ^ 31"
  shows "\<exists>st2 m b st3. inode_open st' (Some p) sec = Inr (Some p, st2)
           \<and> inode_read_at st2 (Some p) buf malloc_ok sz offset = Inr (m, b, st3)
           \<and> 0 \<le> m \<and> (\<forall>j. int j < m \<longrightarrow> b j = 0)
           \<and> (malloc_ok \<and> 0 \<le> sz \<and> (\<forall>k<n. sec \<noteq> first + of_nat k) \<longrightarrow>
                 m = min sz (max 0 (len - offset)))"
proof -
  define i where "i = \<lparr>sector = sec, open_cnt = 1, removed = False,
               data = inode_disk_of_bytes (sector_at (disk st' sec) 0),
               inode_lock = Lock_Free, dir_lock = Lock_Uninitialised\<rparr>"
  define st2 where "st2 = st'\<lparr>open_inodes := p # open_inodes st',
            events := events st' @ [Disk_Read sec], heap := (heap st')(p \<mapsto> i)\<rparr>"
  have op: "inode_open st' (Some p) sec = Inr (Some p, st2)"
    unfolding st2_def i_def by (rule inode_open_new [OF fo])
  have h: "heap st2 p = Some i" by (simp add: st2_def)
  have dk: "disk st2 = disk st'" by (simp add: st2_def)
  define li where "li = sint (dlength (data i))"
  have li: "li = len \<or> li = 0"
  proof (cases "\<forall>k<n. sec \<noteq> first + of_nat k")
    case True
    with ds have "data i = inode_disk_of_bytes (sector_at (sector_at (inode_disk_bytes d) 0) 0)"
      by (simp add: i_def)
    then show ?thesis
      using len by (simp add: li_def inode_disk_of_bytes_dlength d sint_off_t)
  next
    case False
    then obtain k where "k < n" "sec = first + of_nat k" by blast
    with zs have "data i = inode_disk_of_bytes (sector_at zeros 0)" by (simp add: i_def)
    then show ?thesis by (simp add: li_def inode_disk_of_zeros)
  qed
  have p31: "(2::int) ^ 31 = 2147483648" by simp
  have ov: "is_off_t (li - offset)"
    using li len off unfolding is_off_t_def p31 by auto
  from read_loop_spec [OF h li_def off(1) ov, of 0 buf malloc_ok sz False]
  obtain m b es where
    r: "inode_read_at st2 (Some p) buf malloc_ok sz offset = Inr (m, b, st2\<lparr>events := events st2 @ es\<rparr>)"
    and m0: "0 \<le> m" and mle: "m \<le> max 0 (min sz (li - offset))"
    and meq: "malloc_ok \<longrightarrow> m = max 0 (min sz (li - offset))"
    and bf: "\<forall>j. b j = (if int j < m then file_byte st2 i (offset + int j) else buf j)"
    unfolding inode_read_at_def by auto
  have z: "b j = 0" if j: "int j < m" for j
  proof -
    from j mle have ml: "offset + int j < li" by auto
    then have "li \<noteq> 0" using off by auto
    with li have ll: "li = len" by simp
    have nd: "\<forall>k<n. sec \<noteq> first + of_nat k"
    proof (rule ccontr)
      assume "\<not> (\<forall>k<n. sec \<noteq> first + of_nat k)"
      then obtain k where "k < n" "sec = first + of_nat k" by blast
      with zs have "data i = inode_disk_of_bytes (sector_at zeros 0)" by (simp add: i_def)
      then have "li = 0" by (simp add: li_def inode_disk_of_zeros)
      with \<open>li \<noteq> 0\<close> show False by simp
    qed
    with ds have "data i = inode_disk_of_bytes (sector_at (sector_at (inode_disk_bytes d) 0) 0)"
      by (simp add: i_def)
    then have sd: "start (data i) = first" by (simp add: inode_disk_of_bytes_start d)
    define q where "q = offset + int j"
    have q: "0 \<le> q" "q < len" using ml ll off by (simp_all add: q_def)
    from bytes_to_sectors_ceil [OF len] have "len \<le> 512 * int n" by (simp add: n)
    with q have "q div 512 < int n" by linarith
    then have kn: "nat (q div 512) < n" using q by linarith
    have "word_of_int (q div 512) = (of_nat (nat (q div 512)) :: 32 word)"
      using q by simp
    then have "file_sector i q = first + of_nat (nat (q div 512))"
      by (simp add: file_sector_def sd)
    then have "disk st' (file_sector i q) = zeros" using zs kn by simp
    then have "file_byte st2 i q = 0" by (simp add: file_byte_def dk zeros_def)
    then show ?thesis using bf j by (simp add: q_def)
  qed
  have c: "malloc_ok \<and> 0 \<le> sz \<and> (\<forall>k<n. sec \<noteq> first + of_nat k) \<longrightarrow>
                 m = min sz (max 0 (len - offset))"
  proof (intro impI)
    assume a: "malloc_ok \<and> 0 \<le> sz \<and> (\<forall>k<n. sec \<noteq> first + of_nat k)"
    with ds have "data i = inode_disk_of_bytes (sector_at (sector_at (inode_disk_bytes d) 0) 0)"
      by (simp add: i_def)
    then have "li = len" using len by (simp add: li_def inode_disk_of_bytes_dlength d sint_off_t)
    then show "m = min sz (max 0 (len - offset))" using meq a by auto
  qed
  from op r m0 z c show ?thesis by blast
qed

lemma bytes_to_sectors_1000: "bytes_to_sectors 1000 = 2"
  by (simp add: bytes_to_sectors_def DIV_ROUND_UP_def DISK_SECTOR_SIZE_def)

text \<open>
  C2. Let \<open>len\<close> be a length
  from 0 up in the range of \<^verbatim>\<open>off_t\<close>, \<open>n = bytes_to_sectors len\<close> and \<open>d\<close> the record with the
  allocator's first sector, the length, the magic number and 125 zero words. Then \<open>n\<close> is the
  least number of sectors that hold \<open>len\<close> bytes; \<^verbatim>\<open>inode_create\<close> returns true only when
  \<^verbatim>\<open>calloc\<close> and the allocator succeed, and when they do it returns true after these calls, in
  this order: the request for \<open>n\<close> sectors, the write of the bytes of \<open>d\<close> to the inode's
  sector, and the write of a sector of zeros to each of the \<open>n\<close> sectors from the first. In
  the state it leaves these sectors hold zeros, and the inode's sector holds \<open>d\<close> unless it is
  one of them; the open inodes and the heap are untouched. Opening the sector then (it was
  not open when the file was made) gives a handle on the file through which every read,
  at any offset from 0 up and of any size, returns only zero bytes, and as many as the
  size, the offset and the length allow when the bounce buffer can be allocated and the
  inode's sector is not among its data sectors.
\<close>
theorem create_writes_zeros:
  assumes len: "0 \<le> len" "len < 2 ^ 31"
    and n: "n = bytes_to_sectors len"
    and d: "d = \<lparr>start = first, dlength = word_of_int len, magic = INODE_MAGIC,
                 unused = replicate 125 0\<rparr>"
  shows "len \<le> 512 * int n \<and> 512 * int n < len + 512
    \<and> (\<forall>s. inode_create st calloc_ok ans sec len = Inr (True, s) \<longrightarrow> calloc_ok \<and> ans \<noteq> None)
    \<and> (\<exists>st'. inode_create st True (Some first) sec len = Inr (True, st')
          \<and> events st' = events st @
               [Free_Map_Allocate n, Disk_Write sec (sector_at (inode_disk_bytes d) 0)] @
               map (\<lambda>k. Disk_Write (first + of_nat k) zeros) [0..<n]
          \<and> (\<forall>k<n. disk st' (first + of_nat k) = zeros)
          \<and> ((\<forall>k<n. sec \<noteq> first + of_nat k) \<longrightarrow>
                disk st' sec = sector_at (inode_disk_bytes d) 0)
          \<and> open_inodes st' = open_inodes st \<and> heap st' = heap st
          \<and> (find_open st (open_inodes st) sec = Inr None \<and> 0 \<le> offset \<and> offset < 2 ^ 31 \<longrightarrow>
               (\<exists>st2 m b st3. inode_open st' (Some p) sec = Inr (Some p, st2)
                  \<and> inode_read_at st2 (Some p) buf malloc_ok sz offset = Inr (m, b, st3)
                  \<and> 0 \<le> m \<and> (\<forall>j. int j < m \<longrightarrow> b j = 0)
                  \<and> (malloc_ok \<and> 0 \<le> sz \<and> (\<forall>k<n. sec \<noteq> first + of_nat k) \<longrightarrow>
                        m = min sz (max 0 (len - offset))))))"
proof -
  define st1 where "st1 = st\<lparr>free_map := (\<lambda>s. in_sectors first n s \<or> free_map st s),
               events := events st @ [Free_Map_Allocate n]\<rparr>"
  define st2 where "st2 = disk_write st1 sec (inode_disk_bytes d)"
  define st' where "st' = foldl (\<lambda>s i. disk_write s (first + of_nat i) zeros) st2 [0..<n]"
  have cr: "inode_create st True (Some first) sec len = Inr (True, st')"
    unfolding st'_def st2_def st1_def n d by (rule inode_create_succeeds [OF len(1)])
  from zero_fill [where ?st2.0 = st2 and first = first and n = n]
  have zf: "disk st' = (\<lambda>s. if \<exists>k<n. s = first + of_nat k then zeros else disk st2 s)"
    "events st' = events st2 @ map (\<lambda>k. Disk_Write (first + of_nat k) zeros) [0..<n]"
    "heap st' = heap st2" "open_inodes st' = open_inodes st2"
    unfolding st'_def by simp_all
  have ev: "events st' = events st @
               [Free_Map_Allocate n, Disk_Write sec (sector_at (inode_disk_bytes d) 0)] @
               map (\<lambda>k. Disk_Write (first + of_nat k) zeros) [0..<n]"
    by (simp add: zf st2_def st1_def disk_write_def)
  have zs: "\<forall>k<n. disk st' (first + of_nat k) = zeros" by (auto simp: zf)
  have ds: "(\<forall>k<n. sec \<noteq> first + of_nat k) \<longrightarrow> disk st' sec = sector_at (inode_disk_bytes d) 0"
    by (auto simp: zf st2_def disk_write_def)
  have fr: "open_inodes st' = open_inodes st" "heap st' = heap st"
    by (simp_all add: zf st2_def st1_def disk_write_def)
  have fo: "find_open st' ps sec = find_open st ps sec" for ps
    by (induction ps) (simp_all add: fr split: option.splits)
  have rd: "find_open st (open_inodes st) sec = Inr None \<and> 0 \<le> offset \<and> offset < 2 ^ 31 \<longrightarrow>
               (\<exists>st2 m b st3. inode_open st' (Some p) sec = Inr (Some p, st2)
                  \<and> inode_read_at st2 (Some p) buf malloc_ok sz offset = Inr (m, b, st3)
                  \<and> 0 \<le> m \<and> (\<forall>j. int j < m \<longrightarrow> b j = 0)
                  \<and> (malloc_ok \<and> 0 \<le> sz \<and> (\<forall>k<n. sec \<noteq> first + of_nat k) \<longrightarrow>
                        m = min sz (max 0 (len - offset))))"
  proof (intro impI)
    assume a: "find_open st (open_inodes st) sec = Inr None \<and> 0 \<le> offset \<and> offset < 2 ^ 31"
    then have "find_open st' (open_inodes st') sec = Inr None" by (simp add: fo fr)
    from read_after_create [OF len n d zs ds this, of offset p buf malloc_ok sz] a
    show "\<exists>st2 m b st3. inode_open st' (Some p) sec = Inr (Some p, st2)
                  \<and> inode_read_at st2 (Some p) buf malloc_ok sz offset = Inr (m, b, st3)
                  \<and> 0 \<le> m \<and> (\<forall>j. int j < m \<longrightarrow> b j = 0)
                  \<and> (malloc_ok \<and> 0 \<le> sz \<and> (\<forall>k<n. sec \<noteq> first + of_nat k) \<longrightarrow>
                        m = min sz (max 0 (len - offset)))"
      by simp
  qed
  have 1: "len \<le> 512 * int n \<and> 512 * int n < len + 512"
    using bytes_to_sectors_ceil [OF len] by (simp add: n)
  have 2: "\<forall>s. inode_create st calloc_ok ans sec len = Inr (True, s) \<longrightarrow> calloc_ok \<and> ans \<noteq> None"
    using inode_create_success_needs by blast
  from 1 2 cr ev zs ds fr rd show ?thesis by blast
qed

theorem create_writes_zeros_witness:
  "\<exists>st'. inode_create example_fs True (Some 8) 7 1000 = Inr (True, st')
      \<and> events st' = events example_fs @
           [Free_Map_Allocate 2,
            Disk_Write 7 (sector_at (inode_disk_bytes
              \<lparr>start = 8, dlength = word_of_int 1000, magic = INODE_MAGIC,
               unused = replicate 125 0\<rparr>) 0)] @
           map (\<lambda>k. Disk_Write (8 + of_nat k) zeros) [0..<2]
      \<and> (\<exists>st2 m b st3. inode_open st' (Some 2) 7 = Inr (Some 2, st2)
             \<and> inode_read_at st2 (Some 2) (\<lambda>j. 9) True 600 500 = Inr (m, b, st3)
             \<and> m = 500 \<and> (\<forall>j. int j < m \<longrightarrow> b j = 0))"
proof -
  have k: "\<forall>k<2. (7 :: 32 word) \<noteq> 8 + of_nat k"
    by (simp add: less_2_cases_iff)
  have f: "find_open example_fs (open_inodes example_fs) 7 = Inr None"
    by (simp add: example_fs_def example_inode_def)
  from create_writes_zeros [of 1000 2 "\<lparr>start = 8, dlength = word_of_int 1000,
      magic = INODE_MAGIC, unused = replicate 125 0\<rparr>" 8 example_fs True "Some 8" 7 500 2
      "\<lambda>j. 9" True 600] k f
  show ?thesis by (simp add: bytes_to_sectors_1000) blast
qed

end
